theory Spec2Isabelle
  imports Complex_Main "HOL-Library.Word" "HOL-Library.AList"
begin

section \<open>Strings and numbers of the JavaScript runtime\<close>

text \<open>
  A JavaScript string is modelled by the list of bytes of its UTF-8 encoding, one
  \<^typ>\<open>char\<close> per byte. Every string operation of the modelled code searches for or splits at
  ASCII text, so it acts on the bytes as it acts on the code units.
\<close>

definition nl :: string where
  "nl = [CHR 0x0A]"

definition dq :: string where
  "dq = [CHR 0x22]"

text \<open>The check mark and the ballot cross of the log markers, as UTF-8.\<close>

definition check_mark :: string where
  "check_mark = [CHR 0xE2, CHR 0x9C, CHR 0x93]"

definition cross_mark :: string where
  "cross_mark = [CHR 0xE2, CHR 0x9C, CHR 0x97]"

fun startsWith :: "'a list \<Rightarrow> 'a list \<Rightarrow> bool" where
  "startsWith s [] = True"
| "startsWith [] (p # ps) = False"
| "startsWith (c # cs) (p # ps) = (c = p \<and> startsWith cs ps)"

text \<open>\<^verbatim>\<open>s.includes(p)\<close>\<close>

fun includesStr :: "'a list \<Rightarrow> 'a list \<Rightarrow> bool" where
  "includesStr [] p = (p = [])"
| "includesStr (c # cs) p = (startsWith (c # cs) p \<or> includesStr cs p)"

definition digitChar :: "nat \<Rightarrow> char" where
  "digitChar d = (if d < 10 then char_of (48 + d) else char_of (87 + d))"

text \<open>\<^verbatim>\<open>n.toString(radix)\<close> for a non-negative integer \<open>n\<close> and a radix from 2 to 36.\<close>

function toStringRadix :: "nat \<Rightarrow> nat \<Rightarrow> string" where
  "toStringRadix r n =
     (if r < 2 \<or> n < r then [digitChar n] else toStringRadix r (n div r) @ [digitChar (n mod r)])"
  by pat_completeness auto
termination
  by (relation "measure snd") auto

declare toStringRadix.simps [simp del]

definition showNat :: "nat \<Rightarrow> string" where
  "showNat n = toStringRadix 10 n"

definition showInt :: "int \<Rightarrow> string" where
  "showInt i = (if i < 0 then CHR ''-'' # showNat (nat (- i)) else showNat (nat i))"

section \<open>The fly-deploy log stream\<close>

text \<open>
  The stream's \<^verbatim>\<open>start\<close> callback of \<^verbatim>\<open>handleFlyDeploy\<close> writes to the response
  through \<^verbatim>\<open>log\<close>, removes the build directory and closes the controller. Its run is the
  list of these effects, in order. A subprocess is given by what it does: the data events
  of its two pipes, in order of arrival, and the event that settles the promise waiting
  for it (\<^verbatim>\<open>close\<close> with the exit code, or \<^verbatim>\<open>error\<close>).
\<close>

datatype effect = Log string | Rm string | ControllerClose

datatype proc_data = Stdout string | Stderr string

datatype proc_end = Close "int option" | ProcError string

type_synonym proc_run = "proc_data list \<times> proc_end"

datatype js_exn = JsError string | NonError

text \<open>A computation: the effects it has made, and how it ended (\<open>Inl\<close>: it threw).\<close>

type_synonym io = "effect list \<times> (js_exn + unit)"

definition log :: "string \<Rightarrow> io" where
  "log msg = ([Log msg], Inr ())"

definition seq :: "io \<Rightarrow> io \<Rightarrow> io" where
  "seq a b = (case snd a of Inl e \<Rightarrow> a | Inr u \<Rightarrow> (fst a @ fst b, snd b))"

definition skip :: io where
  "skip = ([], Inr ())"

definition seqs :: "io list \<Rightarrow> io" where
  "seqs cs = foldr seq cs skip"

text \<open>\<^verbatim>\<open>try { body } catch (err) { handler(err) } finally { fin }\<close>\<close>

definition tryCatchFinally :: "io \<Rightarrow> (js_exn \<Rightarrow> io) \<Rightarrow> io \<Rightarrow> io" where
  "tryCatchFinally body handler fin =
     (let caught = (case snd body of
                      Inr u \<Rightarrow> body
                    | Inl e \<Rightarrow> (fst body @ fst (handler e), snd (handler e)))
      in case snd fin of
           Inl e \<Rightarrow> (fst caught @ fst fin, Inl e)
         | Inr u \<Rightarrow> (fst caught @ fst fin, snd caught))"

text \<open>\<^verbatim>\<open>try { body } catch { }\<close>\<close>

definition tryIgnore :: "io \<Rightarrow> io" where
  "tryIgnore body = (fst body, Inr ())"

text \<open>\<^verbatim>\<open>await rm(buildDir, { recursive: true, force: true })\<close>, which may reject.\<close>

definition rm :: "string \<Rightarrow> bool \<Rightarrow> io" where
  "rm dir ok = ([Rm dir], if ok then Inr () else Inl (JsError ''rm failed''))"

definition controllerClose :: io where
  "controllerClose = ([ControllerClose], Inr ())"

subsection \<open>Step 1: creating the app\<close>

definition reuseMessage :: "string \<Rightarrow> string" where
  "reuseMessage flyAppName = ''App '' @ dq @ flyAppName @ dq @ '' already exists, reusing it.'' @ nl"

text \<open>The handlers of \<^verbatim>\<open>createApp.stdout\<close> and \<^verbatim>\<open>createApp.stderr\<close>.\<close>

fun createAppData :: "string \<Rightarrow> proc_data \<Rightarrow> io" where
  "createAppData flyAppName (Stdout d) = log d"
| "createAppData flyAppName (Stderr msg) =
     (if \<not> includesStr msg ''already exists'' then log msg else log (reuseMessage flyAppName))"

text \<open>The promise of step 1 resolves on \<^verbatim>\<open>close\<close> and on \<^verbatim>\<open>error\<close> alike.\<close>

definition awaitCreateApp :: "string \<Rightarrow> proc_run \<Rightarrow> io" where
  "awaitCreateApp flyAppName run = seqs (map (createAppData flyAppName) (fst run))"

subsection \<open>Step 2: deploying\<close>

definition actuallyDeployed :: "string \<Rightarrow> bool" where
  "actuallyDeployed deployOutput =
     (includesStr deployOutput ''has been deployed'' \<or>
      includesStr deployOutput ''deployed successfully'' \<or>
      includesStr deployOutput ''Machines are starting'' \<or>
      includesStr deployOutput ''Visit your newly deployed app'')"

definition codeString :: "int option \<Rightarrow> string" where
  "codeString code = (case code of None \<Rightarrow> ''null'' | Some c \<Rightarrow> showInt c)"

text \<open>The handler of \<^verbatim>\<open>deploy.on('close', ...)\<close>: \<open>Inr\<close> resolves, \<open>Inl\<close> rejects.\<close>

definition deployClose :: "string \<Rightarrow> int option \<Rightarrow> js_exn + unit" where
  "deployClose deployOutput code =
     (if code = Some 0 \<and> actuallyDeployed deployOutput then Inr ()
      else if code = Some 0 \<and> \<not> actuallyDeployed deployOutput then
        Inl (JsError ''flyctl exited but deployment did not complete. Check the log above for details.'')
      else Inl (JsError (''flyctl deploy exited with code '' @ codeString code)))"

definition dataText :: "proc_data \<Rightarrow> string" where
  "dataText d = (case d of Stdout t \<Rightarrow> t | Stderr t \<Rightarrow> t)"

text \<open>\<^verbatim>\<open>deployOutput\<close> once every data event has been handled.\<close>

definition deployOutputOf :: "proc_data list \<Rightarrow> string" where
  "deployOutputOf ds = foldl (\<lambda>deployOutput d. deployOutput @ dataText d) [] ds"

definition awaitDeploy :: "proc_run \<Rightarrow> io" where
  "awaitDeploy run =
     seq (seqs (map (\<lambda>d. log (dataText d)) (fst run)))
         ([], case snd run of
                Close code \<Rightarrow> deployClose (deployOutputOf (fst run)) code
              | ProcError msg \<Rightarrow> Inl (JsError msg))"

subsection \<open>The whole callback\<close>

definition exnMessage :: "js_exn \<Rightarrow> string" where
  "exnMessage err = (case err of JsError m \<Rightarrow> m | NonError \<Rightarrow> ''Unknown error'')"

definition failureBlock :: "js_exn \<Rightarrow> io" where
  "failureBlock err = seqs
     [log (nl @ cross_mark @ '' Deployment failed: '' @ exnMessage err @ nl),
      log (nl @ ''Troubleshooting:'' @ nl),
      log (''  1. Run '' @ dq @ ''flyctl auth login'' @ dq @ '' to ensure you're authenticated'' @ nl),
      log (''  2. Run '' @ dq @ ''flyctl apps list'' @ dq @ '' to check your apps'' @ nl),
      log (''  3. Check your Dockerfile for build errors'' @ nl)]"

definition step1Header :: "string \<Rightarrow> string \<Rightarrow> nat \<Rightarrow> io" where
  "step1Header flyAppName flyRegion port = seqs
     [log (''[1/3] Creating Fly.io app '' @ dq @ flyAppName @ dq @ '' in region '' @ dq @ flyRegion @ dq @ ''...'' @ nl),
      log (''       Detected internal port: '' @ showNat port @ nl)]"

definition step2Header :: io where
  "step2Header = seqs
     [log (nl @ ''[2/3] Deploying to Fly.io (this builds the Docker image on Fly's remote builders)...'' @ nl),
      log (''       Using Dockerfile from project.'' @ nl @ nl)]"

definition step3Report :: "string \<Rightarrow> io" where
  "step3Report flyAppName = seqs
     [log (nl @ ''[3/3] Deployment complete!'' @ nl),
      log (nl @ check_mark @ '' App deployed successfully to Fly.io'' @ nl),
      log (''  URL: https://'' @ flyAppName @ ''.fly.dev'' @ nl),
      log (''  Dashboard: https://fly.io/apps/'' @ flyAppName @ nl),
      log (nl @ ''  To check status: flyctl status --app '' @ flyAppName @ nl),
      log (''  To view logs:    flyctl logs --app '' @ flyAppName @ nl)]"

definition flyStream ::
  "string \<Rightarrow> string \<Rightarrow> nat \<Rightarrow> string \<Rightarrow> proc_run \<Rightarrow> proc_run \<Rightarrow> bool \<Rightarrow> io" where
  "flyStream flyAppName flyRegion port buildDir createRun deployRun rmOk =
     tryCatchFinally
       (seqs [step1Header flyAppName flyRegion port,
              awaitCreateApp flyAppName createRun,
              step2Header,
              awaitDeploy deployRun,
              step3Report flyAppName])
       failureBlock
       (seq (tryIgnore (rm buildDir rmOk)) controllerClose)"

text \<open>An effect that writes to the log.\<close>

definition isLog :: "effect \<Rightarrow> bool" where
  "isLog x = (case x of Log m \<Rightarrow> True | _ \<Rightarrow> False)"

section \<open>The tar archive of the package handler\<close>

type_synonym byte = "8 word"

text \<open>\<^verbatim>\<open>new TextEncoder().encode(s)\<close>: the bytes of the string.\<close>

definition encode :: "string \<Rightarrow> byte list" where
  "encode s = map of_char s"

text \<open>\<^verbatim>\<open>s.padStart(n, c)\<close> for a one-character pad string.\<close>

definition padStart :: "nat \<Rightarrow> char \<Rightarrow> string \<Rightarrow> string" where
  "padStart n c s = replicate (n - length s) c @ s"

text \<open>
  \<^verbatim>\<open>target.set(source, offset)\<close> on a \<^verbatim>\<open>Uint8Array\<close>: a source that does not fit
  into the target at the offset throws a \<^verbatim>\<open>RangeError\<close>.
\<close>

definition setBytes :: "byte list \<Rightarrow> byte list \<Rightarrow> nat \<Rightarrow> js_exn + byte list" where
  "setBytes target source offset =
     (if offset + length source \<le> length target
      then Inr (take offset target @ source @ drop (offset + length source) target)
      else Inl (JsError ''RangeError: offset is out of bounds''))"

definition andThen :: "js_exn + 'a \<Rightarrow> ('a \<Rightarrow> js_exn + 'b) \<Rightarrow> js_exn + 'b" where
  "andThen r f = (case r of Inl e \<Rightarrow> Inl e | Inr x \<Rightarrow> f x)"

text \<open>The loop \<^verbatim>\<open>for (let i = 0; i < 512; i++) checksum += header[i]\<close>.\<close>

definition checksumLoop :: "byte list \<Rightarrow> nat" where
  "checksumLoop header = foldl (\<lambda>checksum i. checksum + unat (header ! i)) 0 [0..<512]"

text \<open>
  \<^verbatim>\<open>createTarHeader(fileName, fileSize)\<close>; \<open>now\<close> is the value of \<^verbatim>\<open>Date.now()\<close>, in
  milliseconds.
\<close>

definition createTarHeader :: "nat \<Rightarrow> string \<Rightarrow> nat \<Rightarrow> js_exn + byte list" where
  "createTarHeader now fileName fileSize =
     (let header = replicate 512 (0 :: byte);
          nameBytes = encode fileName;
          sizeOctal = padStart 11 CHR ''0'' (toStringRadix 8 fileSize) @ [CHR 0x00];
          mtime = padStart 11 CHR ''0'' (toStringRadix 8 (now div 1000)) @ [CHR 0x00]
      in andThen (setBytes header (take 100 nameBytes) 0) (\<lambda>header.
         andThen (setBytes header (encode (''0000644'' @ [CHR 0x00])) 100) (\<lambda>header.
         andThen (setBytes header (encode (''0001000'' @ [CHR 0x00])) 108) (\<lambda>header.
         andThen (setBytes header (encode (''0001000'' @ [CHR 0x00])) 116) (\<lambda>header.
         andThen (setBytes header (encode sizeOctal) 124) (\<lambda>header.
         andThen (setBytes header (encode mtime) 136) (\<lambda>header.
         andThen (setBytes header (encode ''        '') 148) (\<lambda>header.
         andThen (Inr (header[156 := 0x30])) (\<lambda>header.
         andThen (setBytes header (encode (''ustar'' @ [CHR 0x00])) 257) (\<lambda>header.
         andThen (setBytes header (encode ''00'') 263) (\<lambda>header.
           let checksum = checksumLoop header;
               checksumOctal = padStart 6 CHR ''0'' (toStringRadix 8 checksum) @ [CHR 0x00, CHR '' '']
           in setBytes header (encode checksumOctal) 148)))))))))))"

text \<open>
  The file set \<^verbatim>\<open>files: Record<string, string>\<close> is the list of its properties in the order
  in which they were created, each path once.
\<close>

type_synonym files = "(string \<times> string) list"

text \<open>
  \<^verbatim>\<open>Object.entries(files)\<close> enumerates the properties whose key is an array index first, in
  ascending order of the index, and then the other properties in the order of their
  creation. An array index is the decimal numeral, without a leading zero, of an integer
  below \<open>2\<^sup>3\<^sup>2 - 1\<close>.
\<close>

definition decimalValue :: "string \<Rightarrow> nat" where
  "decimalValue key = foldl (\<lambda>v c. 10 * v + (of_char c - 48)) 0 key"

definition isArrayIndex :: "string \<Rightarrow> bool" where
  "isArrayIndex key =
     (key \<noteq> [] \<and>
      list_all (\<lambda>c. 48 \<le> (of_char c :: nat) \<and> (of_char c :: nat) \<le> 57) key \<and>
      (if hd key = CHR ''0'' then key = ''0'' else True) \<and>
      decimalValue key < 4294967295)"

definition objectEntries :: "files \<Rightarrow> files" where
  "objectEntries files =
     sort_key (\<lambda>(filePath, content). decimalValue filePath)
       (filter (\<lambda>(filePath, content). isArrayIndex filePath) files) @
     filter (\<lambda>(filePath, content). \<not> isArrayIndex filePath) files"

text \<open>
  The loops below run over the entries that \<^verbatim>\<open>Object.entries\<close> has returned. \<open>clock k\<close> is the
  value of \<^verbatim>\<open>Date.now()\<close> when the header of entry \<open>k\<close> is made.
\<close>

text \<open>One round of the loop over the entries: what it pushes.\<close>

definition pushEntry :: "nat \<Rightarrow> string \<Rightarrow> string \<Rightarrow> js_exn + byte list list" where
  "pushEntry now filePath content =
     (let fileData = encode content
      in andThen (createTarHeader now filePath (length fileData)) (\<lambda>header.
           let padding = 512 - (length fileData mod 512)
           in Inr ([header, fileData] @ (if padding < 512 then [replicate padding 0] else []))))"

fun pushEntries :: "(nat \<Rightarrow> nat) \<Rightarrow> nat \<Rightarrow> files \<Rightarrow> js_exn + byte list list" where
  "pushEntries clock k [] = Inr []"
| "pushEntries clock k ((filePath, content) # rest) =
     andThen (pushEntry (clock k) filePath content) (\<lambda>pushed.
     andThen (pushEntries clock (Suc k) rest) (\<lambda>more. Inr (pushed @ more)))"

text \<open>The loop that copies the entries into \<^verbatim>\<open>tarBuffer\<close>.\<close>

fun copyEntries :: "byte list \<Rightarrow> nat \<Rightarrow> byte list list \<Rightarrow> js_exn + byte list" where
  "copyEntries tarBuffer offset [] = Inr tarBuffer"
| "copyEntries tarBuffer offset (entry # rest) =
     andThen (setBytes tarBuffer entry offset) (\<lambda>tarBuffer.
       copyEntries tarBuffer (offset + length entry) rest)"

text \<open>
  The archive made from the entries, before it is compressed. An exception is caught by
  the handler and answered with status 500.
\<close>

definition tarBufferOf :: "(nat \<Rightarrow> nat) \<Rightarrow> files \<Rightarrow> js_exn + byte list" where
  "tarBufferOf clock files =
     andThen (pushEntries clock 0 files) (\<lambda>pushed.
       let entries = pushed @ [replicate 1024 0];
           totalLength = foldl (\<lambda>sum e. sum + length e) 0 entries
       in copyEntries (replicate totalLength 0) 0 entries)"

text \<open>\<^verbatim>\<open>tarBuffer\<close> in \<^verbatim>\<open>handlePackage(imageName, files)\<close>.\<close>

definition handlePackageTarBuffer :: "(nat \<Rightarrow> nat) \<Rightarrow> files \<Rightarrow> js_exn + byte list" where
  "handlePackageTarBuffer clock files = tarBufferOf clock (objectEntries files)"

subsection \<open>Reading the archive back\<close>

text \<open>
  No code of the repository reads the archive. The reader below reads it back field by
  field as the USTAR layout has it: an archive is a sequence of entries, each a 512-byte
  header followed by the content in blocks of 512 bytes, ended by two blocks of zeros. It
  checks the magic, the version, the type flag of a regular file and the checksum of each
  header, reads the size as an octal number, and returns for each entry the bytes of its
  path, from the prefix and name fields up to their first NUL, and the bytes of its content.
  What a program that extracts the archive then makes of a path (a path that ends in a
  slash taken for a directory, a leading slash removed) is not modelled.
\<close>

definition isOctalDigit :: "byte \<Rightarrow> bool" where
  "isOctalDigit b = (48 \<le> unat b \<and> unat b \<le> 55)"

text \<open>An octal field: digits ended by a NUL or a space.\<close>

definition octalValue :: "byte list \<Rightarrow> nat option" where
  "octalValue field =
     (let digits = takeWhile (\<lambda>b. b \<noteq> 0 \<and> b \<noteq> 32) field
      in if digits \<noteq> [] \<and> list_all isOctalDigit digits
         then Some (foldl (\<lambda>v b. 8 * v + (unat b - 48)) 0 digits)
         else None)"

text \<open>A text field: the bytes before the first NUL.\<close>

definition cString :: "byte list \<Rightarrow> byte list" where
  "cString field = takeWhile (\<lambda>b. b \<noteq> 0) field"

definition ustarHeaderOk :: "byte list \<Rightarrow> bool" where
  "ustarHeaderOk header =
     (length header = 512 \<and>
      take 6 (drop 257 header) = encode (''ustar'' @ [CHR 0x00]) \<and>
      take 2 (drop 263 header) = encode ''00'' \<and>
      take 1 (drop 156 header) = encode ''0'' \<and>
      octalValue (take 8 (drop 148 header)) =
        Some (sum_list (map unat (take 148 header @ encode ''        '' @ drop 156 header))))"

definition ustarPath :: "byte list \<Rightarrow> byte list" where
  "ustarPath header =
     (let prefix = cString (take 155 (drop 345 header));
          name = cString (take 100 header)
      in if prefix = [] then name else prefix @ encode ''/'' @ name)"

function ustarRead :: "byte list \<Rightarrow> (byte list \<times> byte list) list option" where
  "ustarRead buf =
     (if length buf < 1024 then None
      else if take 1024 buf = replicate 1024 0 then Some []
      else if \<not> ustarHeaderOk (take 512 buf) then None
      else case octalValue (take 12 (drop 124 (take 512 buf))) of
             None \<Rightarrow> None
           | Some fileSize \<Rightarrow>
               if length buf < 512 + 512 * ((fileSize + 511) div 512) then None
               else case ustarRead (drop (512 + 512 * ((fileSize + 511) div 512)) buf) of
                      None \<Rightarrow> None
                    | Some entries \<Rightarrow>
                        Some ((ustarPath (take 512 buf), take fileSize (drop 512 buf)) # entries))"
  by pat_completeness auto
termination
  by (relation "measure length") auto

declare ustarRead.simps [simp del]

text \<open>An entry of the archive: the header, the content, and zeros up to the next block.\<close>

abbreviation entryBytes :: "byte list \<Rightarrow> string \<Rightarrow> byte list" where
  "entryBytes header content \<equiv>
     header @ encode content @ replicate ((512 - length (encode content) mod 512) mod 512) 0"

section \<open>The analytics tracker of the fly-deploy handler\<close>

text \<open>\<^verbatim>\<open>s.indexOf(p)\<close>: the position of the first occurrence of \<open>p\<close> in \<open>s\<close>.\<close>

fun indexOf :: "'a list \<Rightarrow> 'a list \<Rightarrow> nat option" where
  "indexOf [] p = (if p = [] then Some 0 else None)"
| "indexOf (c # cs) p =
     (if startsWith (c # cs) p then Some 0 else map_option Suc (indexOf cs p))"

text \<open>
  The replacement text of \<^verbatim>\<open>String.prototype.replace\<close> for a string pattern, which has no
  capture groups: in the template \<^verbatim>\<open>$$\<close> stands for a dollar sign, \<^verbatim>\<open>$&\<close> for the matched text,
  \<^verbatim>\<open>$`\<close> for the text before the match and \<^verbatim>\<open>$'\<close> for the text after it; every other
  character stands for itself.
\<close>

fun getSubstitution :: "string \<Rightarrow> string \<Rightarrow> nat \<Rightarrow> string \<Rightarrow> string" where
  "getSubstitution matched str position [] = []"
| "getSubstitution matched str position [c] = [c]"
| "getSubstitution matched str position (c # d # template) =
     (if c = CHR ''$'' \<and> d = CHR ''$'' then CHR ''$'' # getSubstitution matched str position template
      else if c = CHR ''$'' \<and> d = CHR 0x60 then take position str @ getSubstitution matched str position template
      else if c = CHR ''$'' \<and> d = CHR ''&'' then matched @ getSubstitution matched str position template
      else if c = CHR ''$'' \<and> d = CHR 0x27 then
        drop (position + length matched) str @ getSubstitution matched str position template
      else c # getSubstitution matched str position (d # template))"

text \<open>\<^verbatim>\<open>str.replace(searchValue, replaceValue)\<close> with two strings: the first occurrence only.\<close>

definition replaceFirst :: "string \<Rightarrow> string \<Rightarrow> string \<Rightarrow> string" where
  "replaceFirst str searchValue replaceValue =
     (case indexOf str searchValue of
        None \<Rightarrow> str
      | Some position \<Rightarrow>
          take position str @ getSubstitution searchValue str position replaceValue @
          drop (position + length searchValue) str)"

text \<open>\<^verbatim>\<open>boltUrl.replace(/\/$/, '')\<close>: a slash at the end of the string is removed.\<close>

definition stripTrailingSlash :: "string \<Rightarrow> string" where
  "stripTrailingSlash s = (if s \<noteq> [] \<and> last s = CHR ''/'' then butlast s else s)"

text \<open>
  \<^verbatim>\<open>JSON.stringify\<close> of a string: the string in double quotes, with the double quote, the
  backslash and the control characters escaped.
\<close>

definition hex4 :: "nat \<Rightarrow> string" where
  "hex4 n = [digitChar (n div 4096 mod 16), digitChar (n div 256 mod 16),
             digitChar (n div 16 mod 16), digitChar (n mod 16)]"

definition quoteChar :: "char \<Rightarrow> string" where
  "quoteChar c =
     (if c = CHR 0x08 then [CHR 0x5C, CHR ''b'']
      else if c = CHR 0x09 then [CHR 0x5C, CHR ''t'']
      else if c = CHR 0x0A then [CHR 0x5C, CHR ''n'']
      else if c = CHR 0x0C then [CHR 0x5C, CHR ''f'']
      else if c = CHR 0x0D then [CHR 0x5C, CHR ''r'']
      else if c = CHR 0x22 then [CHR 0x5C, CHR 0x22]
      else if c = CHR 0x5C then [CHR 0x5C, CHR 0x5C]
      else if (of_char c :: nat) < 32 then [CHR 0x5C, CHR ''u''] @ hex4 (of_char c)
      else [c])"

definition jsonStringify :: "string \<Rightarrow> string" where
  "jsonStringify s = dq @ concat (map quoteChar s) @ dq"

definition trackerScript :: "string \<Rightarrow> string \<Rightarrow> string" where
  "trackerScript flyAppName boltUrl =
     ''<script>(function(){var _boltApp='' @ jsonStringify flyAppName @
     '',_boltUrl='' @ jsonStringify (stripTrailingSlash boltUrl) @
     ('';function _boltTrack(p){try{fetch(_boltUrl+'/api/analytics?app='+encodeURIComponent('' @
      ''_boltApp)+'&path='+encodeURIComponent(p||'/')+'&sid='+(sessionStorage._boltSid||(ses'' @
      ''sionStorage._boltSid=Math.random().toString(36).slice(2)'' @
      '')),{method:'POST',keepalive:true}).catch(function(){});'' @
      ''}catch(e){}}if(document.readyState==='loading'){document.addEventListener('DOMConten'' @
      ''tLoaded',function(){_boltTrack(location.pathname);});}else{'' @
      ''_boltTrack(location.pathname);}var _hp=history.pushState;'' @
      ''history.pushState=function(){_hp.apply(this,arguments);'' @
      ''_boltTrack(location.pathname);};window.addEventListener('popstate','' @
      ''function(){_boltTrack(location.pathname);});}());</script>'')"

text \<open>
  The block of \<^verbatim>\<open>handleFlyDeploy\<close> that injects the tracker: it returns the file set as the
  handler goes on with it. The condition \<^verbatim>\<open>boltUrl && files['index.html']\<close> holds when both are
  defined and not empty; the assignment to \<^verbatim>\<open>files['index.html']\<close> replaces the content of
  that entry.
\<close>

definition injectTracker :: "string \<Rightarrow> string option \<Rightarrow> files \<Rightarrow> files" where
  "injectTracker flyAppName boltUrl files =
     (case (boltUrl, map_of files ''index.html'') of
        (Some url, Some indexHtml) \<Rightarrow>
          if url \<noteq> [] \<and> indexHtml \<noteq> [] then
            let script = trackerScript flyAppName url;
                replaced = replaceFirst indexHtml ''</body>'' (script @ ''</body>'');
                html = (if \<not> includesStr replaced script
                        then replaceFirst replaced ''</html>'' (script @ ''</html>'')
                        else replaced)
            in AList.update ''index.html'' html files
          else files
      | _ \<Rightarrow> files)"

section \<open>The project detector\<close>

text \<open>
  The value that \<^verbatim>\<open>JSON.parse\<close> returns. An object is the list of its entries, each key
  once. A value that may be \<^verbatim>\<open>undefined\<close> is a \<^typ>\<open>'a option\<close>.
\<close>

datatype json = JNull | JBool bool | JNum real | JStr string | JArr "json list" | JObj "(string \<times> json) list"

datatype projectType = Node | Static | Python | Unknown

datatype packageManager = Npm | Yarn | Pnpm

record ProjectDetection =
  type :: projectType
  hasPackageJson :: bool
  hasBuildScript :: bool
  buildCommand :: string
  startCommand :: string
  buildOutputDir :: string
  nodeVersion :: string
  packageManager :: packageManager

text \<open>A value used as a condition.\<close>

definition truthy :: "json option \<Rightarrow> bool" where
  "truthy v =
     (case v of
        None \<Rightarrow> False
      | Some JNull \<Rightarrow> False
      | Some (JBool b) \<Rightarrow> b
      | Some (JNum x) \<Rightarrow> x \<noteq> 0
      | Some (JStr s) \<Rightarrow> s \<noteq> []
      | Some (JArr xs) \<Rightarrow> True
      | Some (JObj kvs) \<Rightarrow> True)"

definition truthyString :: "string option \<Rightarrow> bool" where
  "truthyString v = (case v of None \<Rightarrow> False | Some s \<Rightarrow> s \<noteq> [])"

text \<open>
  \<^verbatim>\<open>base.name\<close>: reading a property of \<^verbatim>\<open>null\<close> or \<^verbatim>\<open>undefined\<close> throws a \<^verbatim>\<open>TypeError\<close>. The
  names that the detector reads are own properties of objects only: on a string, a number,
  a boolean or an array they are \<^verbatim>\<open>undefined\<close>.
\<close>

definition ownProperty :: "json \<Rightarrow> string \<Rightarrow> json option" where
  "ownProperty base name = (case base of JObj kvs \<Rightarrow> map_of kvs name | _ \<Rightarrow> None)"

definition member :: "json option \<Rightarrow> string \<Rightarrow> js_exn + json option" where
  "member base name =
     (case base of
        None \<Rightarrow> Inl (JsError ''TypeError: cannot read properties of undefined'')
      | Some JNull \<Rightarrow> Inl (JsError ''TypeError: cannot read properties of null'')
      | Some v \<Rightarrow> Inr (ownProperty v name))"

text \<open>\<^verbatim>\<open>base?.name\<close>\<close>

definition optionalMember :: "json option \<Rightarrow> string \<Rightarrow> json option" where
  "optionalMember base name =
     (case base of None \<Rightarrow> None | Some JNull \<Rightarrow> None | Some v \<Rightarrow> ownProperty v name)"

text \<open>
  \<^verbatim>\<open>deps.name\<close> for \<^verbatim>\<open>deps = { ...pkg.dependencies, ...pkg.devDependencies }\<close>: an entry of
  the second object replaces the entry of the first with the same key.
\<close>

definition spreadLookup :: "json option \<Rightarrow> json option \<Rightarrow> string \<Rightarrow> json option" where
  "spreadLookup dependencies devDependencies name =
     (case optionalMember devDependencies name of
        Some v \<Rightarrow> Some v
      | None \<Rightarrow> optionalMember dependencies name)"

text \<open>\<^verbatim>\<open>s.match(/(\d+)/)\<close>: the first run of decimal digits of \<open>s\<close>, if there is one.\<close>

definition isDigit :: "char \<Rightarrow> bool" where
  "isDigit c = (48 \<le> (of_char c :: nat) \<and> (of_char c :: nat) \<le> 57)"

definition firstDigits :: "string \<Rightarrow> string option" where
  "firstDigits s =
     (let run = takeWhile isDigit (dropWhile (\<lambda>c. \<not> isDigit c) s)
      in if run = [] then None else Some run)"

text \<open>
  The statements of the \<^verbatim>\<open>try\<close> block, each from the result so far to the result after
  it, or to the exception it throws before it changes the result. \<open>toText\<close> is the
  conversion of a value to a string in a template literal, which may throw.
\<close>

definition detectBuild :: "json \<Rightarrow> ProjectDetection \<Rightarrow> js_exn + ProjectDetection" where
  "detectBuild pkg result =
     andThen (member (Some pkg) ''scripts'') (\<lambda>scripts.
       if truthy (optionalMember scripts ''build'')
       then Inr (result\<lparr>hasBuildScript := True, buildCommand := ''npm run build''\<rparr>)
       else Inr result)"

definition detectStart ::
  "(json \<Rightarrow> js_exn + string) \<Rightarrow> json \<Rightarrow> ProjectDetection \<Rightarrow> js_exn + ProjectDetection" where
  "detectStart toText pkg result =
     andThen (member (Some pkg) ''scripts'') (\<lambda>scripts.
       if truthy (optionalMember scripts ''start'') then Inr (result\<lparr>startCommand := ''npm run start''\<rparr>)
       else if truthy (optionalMember scripts ''serve'') then Inr (result\<lparr>startCommand := ''npm run serve''\<rparr>)
       else if truthy (optionalMember scripts ''preview'') then Inr (result\<lparr>startCommand := ''npm run preview''\<rparr>)
       else andThen (member (Some pkg) ''main'') (\<lambda>main.
         case main of
           Some v \<Rightarrow>
             if truthy (Some v)
             then andThen (toText v) (\<lambda>text. Inr (result\<lparr>startCommand := ''node '' @ text\<rparr>))
             else Inr (result\<lparr>startCommand := ''node index.js''\<rparr>)
         | None \<Rightarrow> Inr (result\<lparr>startCommand := ''node index.js''\<rparr>)))"

definition detectOutputDir :: "json \<Rightarrow> ProjectDetection \<Rightarrow> js_exn + ProjectDetection" where
  "detectOutputDir pkg result =
     andThen (member (Some pkg) ''dependencies'') (\<lambda>dependencies.
     andThen (member (Some pkg) ''devDependencies'') (\<lambda>devDependencies.
       let deps = spreadLookup dependencies devDependencies in
       if truthy (deps ''next'')
       then Inr (result\<lparr>buildOutputDir := ''.next'', startCommand := ''npm run start''\<rparr>)
       else if truthy (deps ''nuxt'') \<or> truthy (deps ''nuxt3'')
       then Inr (result\<lparr>buildOutputDir := ''.output''\<rparr>)
       else if truthy (deps ''@remix-run/react'') \<or> truthy (deps ''remix'')
       then Inr (result\<lparr>buildOutputDir := ''build''\<rparr>)
       else if truthy (deps ''vite'') \<or> truthy (deps ''@vitejs/plugin-react'')
       then Inr (result\<lparr>buildOutputDir := ''dist''\<rparr>)
       else if truthy (deps ''react-scripts'')
       then Inr (result\<lparr>buildOutputDir := ''build''\<rparr>)
       else Inr result))"

definition detectNodeVersion :: "json \<Rightarrow> ProjectDetection \<Rightarrow> js_exn + ProjectDetection" where
  "detectNodeVersion pkg result =
     andThen (member (Some pkg) ''engines'') (\<lambda>engines.
       if truthy (optionalMember engines ''node'')
       then (case optionalMember engines ''node'' of
               Some (JStr s) \<Rightarrow>
                 (case firstDigits s of
                    Some digits \<Rightarrow> Inr (result\<lparr>nodeVersion := digits\<rparr>)
                  | None \<Rightarrow> Inr result)
             | _ \<Rightarrow> Inl (JsError ''TypeError: pkg.engines.node.match is not a function''))
       else Inr result)"

text \<open>\<^verbatim>\<open>try { statements } catch { }\<close>: the result as it is when a statement throws.\<close>

fun tryStatements :: "('s \<Rightarrow> js_exn + 's) list \<Rightarrow> 's \<Rightarrow> 's" where
  "tryStatements [] result = result"
| "tryStatements (statement # rest) result =
     (case statement result of Inl e \<Rightarrow> result | Inr result' \<Rightarrow> tryStatements rest result')"

text \<open>
  \<^verbatim>\<open>detectProject(files)\<close>; \<open>jsonParse\<close> is \<^verbatim>\<open>JSON.parse\<close>, which throws on a text that is not
  JSON.
\<close>

definition detectProject ::
  "(string \<Rightarrow> js_exn + json) \<Rightarrow> (json \<Rightarrow> js_exn + string) \<Rightarrow> files \<Rightarrow> ProjectDetection" where
  "detectProject jsonParse toText files =
     (let result = \<lparr>type = Unknown, hasPackageJson = False, hasBuildScript = False,
                     buildCommand = '''', startCommand = '''', buildOutputDir = ''dist'',
                     nodeVersion = ''20'', packageManager = Npm\<rparr>;
          result =
            (case map_of files ''package.json'' of
               None \<Rightarrow> result
             | Some text \<Rightarrow>
                 if text = [] then result
                 else
                   let result = result\<lparr>type := Node, hasPackageJson := True\<rparr>;
                       result =
                         (case jsonParse text of
                            Inl e \<Rightarrow> result
                          | Inr pkg \<Rightarrow>
                              tryStatements [detectBuild pkg, detectStart toText pkg,
                                             detectOutputDir pkg, detectNodeVersion pkg] result)
                   in if truthyString (map_of files ''pnpm-lock.yaml'')
                      then result\<lparr>packageManager := Pnpm\<rparr>
                      else if truthyString (map_of files ''yarn.lock'')
                      then result\<lparr>packageManager := Yarn\<rparr>
                      else result);
          result =
            (if truthyString (map_of files ''requirements.txt'') \<or>
                truthyString (map_of files ''pyproject.toml'') \<or>
                truthyString (map_of files ''setup.py'')
             then result\<lparr>type := Python,
                         startCommand := (if truthyString (map_of files ''main.py'')
                                          then ''python main.py'' else ''python app.py'')\<rparr>
             else result)
      in if type result = Unknown \<and> truthyString (map_of files ''index.html'')
         then result\<lparr>type := Static, startCommand := '''', buildOutputDir := ''.''\<rparr>
         else result)"

section \<open>The app name of the one-click deploy\<close>

text \<open>\<^verbatim>\<open>/[^a-z0-9-]/\<close> matches every character but these.\<close>

definition appNameChar :: "char \<Rightarrow> bool" where
  "appNameChar c =
     ((97 \<le> (of_char c :: nat) \<and> (of_char c :: nat) \<le> 122) \<or>
      (48 \<le> (of_char c :: nat) \<and> (of_char c :: nat) \<le> 57) \<or>
      c = CHR ''-'')"

text \<open>\<^verbatim>\<open>s.slice(-n)\<close>: the last \<open>n\<close> characters of \<open>s\<close>, or all of \<open>s\<close> when it is shorter.\<close>

definition sliceLast :: "nat \<Rightarrow> string \<Rightarrow> string" where
  "sliceLast n s = drop (length s - n) s"

text \<open>
  The fresh name
  \<^verbatim>\<open>`${projectName.replace(/[^a-z0-9-]/g, '').slice(0, 24)}-${Date.now().toString(36).slice(-4)}`\<close>.
\<close>

definition freshAppName :: "string \<Rightarrow> nat \<Rightarrow> string" where
  "freshAppName projectName now =
     take 24 (filter appNameChar projectName) @ ''-'' @ sliceLast 4 (toStringRadix 36 now)"

text \<open>\<^verbatim>\<open>hostname.split('.')[0]\<close>\<close>

definition firstLabel :: "string \<Rightarrow> string" where
  "firstLabel hostname = takeWhile (\<lambda>c. c \<noteq> CHR ''.'') hostname"

text \<open>What \<^verbatim>\<open>handleDockerDeploy()\<close> resolves to, when it is not \<^verbatim>\<open>undefined\<close>.\<close>

record dockerDeployResult =
  success :: bool
  resultFiles :: "files option"
  projectName :: string

text \<open>
  The body of the request to \<^verbatim>\<open>/api/deploy-docker\<close>, with the fields \<^verbatim>\<open>action\<close>,
  \<^verbatim>\<open>imageName\<close>, \<^verbatim>\<open>files\<close>, \<^verbatim>\<open>flyAppName\<close>, \<^verbatim>\<open>flyRegion\<close> and \<^verbatim>\<open>boltUrl\<close>.
\<close>

record deployRequest =
  requestAction :: string
  requestImageName :: string
  requestFiles :: files
  requestFlyAppName :: string
  requestFlyRegion :: string
  requestBoltUrl :: string

text \<open>
  \<^verbatim>\<open>handleOneClickDeploy\<close> up to the request it sends: the text it adds to the deploy log and
  the body of the request, or the error it throws when the project could not be prepared.
  \<open>hostnameOf\<close> is \<^verbatim>\<open>new URL(url).hostname\<close>, \<open>None\<close> when the constructor throws;
  \<open>existingUrl\<close> is \<^verbatim>\<open>currentMetadata?.deployedUrl\<close>; \<open>now\<close> is \<^verbatim>\<open>Date.now()\<close> and \<open>origin\<close>
  is \<^verbatim>\<open>window.location.origin\<close>.
\<close>

definition oneClickRequest ::
  "(string \<Rightarrow> string option) \<Rightarrow> nat \<Rightarrow> string \<Rightarrow> string option \<Rightarrow>
   dockerDeployResult option \<Rightarrow> js_exn + string \<times> deployRequest" where
  "oneClickRequest hostnameOf now origin existingUrl result =
     (case result of
        None \<Rightarrow> Inl (JsError ''Failed to prepare project files. Check the terminal for build errors.'')
      | Some r \<Rightarrow>
          (case resultFiles r of
             None \<Rightarrow> Inl (JsError ''Failed to prepare project files. Check the terminal for build errors.'')
           | Some files \<Rightarrow>
               if \<not> success r
               then Inl (JsError ''Failed to prepare project files. Check the terminal for build errors.'')
               else
                 let fresh = freshAppName (projectName r) now;
                     (name, logged) =
                       (case existingUrl of
                          None \<Rightarrow> (fresh, ''Deploying as '' @ dq @ fresh @ dq @ ''...'' @ nl @ nl)
                        | Some url \<Rightarrow>
                            if url = [] then (fresh, ''Deploying as '' @ dq @ fresh @ dq @ ''...'' @ nl @ nl)
                            else
                              (case hostnameOf url of
                                 Some hostname \<Rightarrow>
                                   (firstLabel hostname,
                                    ''Redeploying '' @ dq @ firstLabel hostname @ dq @
                                    '' in-place (same URL, zero downtime)...'' @ nl @ nl)
                               | None \<Rightarrow>
                                   (fresh, ''Deploying as '' @ dq @ fresh @ dq @ ''...'' @ nl @ nl)))
                 in Inr (logged,
                         \<lparr>requestAction = ''fly-deploy'',
                          requestImageName = projectName r @ '':latest'',
                          requestFiles = files, requestFlyAppName = name,
                          requestFlyRegion = ''iad'', requestBoltUrl = origin\<rparr>)))"

section \<open>The streaming artifact parser\<close>

text \<open>
  Modelled from the spec: the events of the streaming parser (the class
  \<^verbatim>\<open>EnhancedStreamingMessageParser\<close> of \<^verbatim>\<open>~/lib/runtime/enhanced-message-parser\<close> is not among
  the source files; only its caller \<^verbatim>\<open>useMessageParser\<close> is). The spec names five events:
  artifact open and close, action open, stream and close. An event carries the attribute
  text of its tag; the stream and close events of an action carry the content so far.
\<close>

datatype event =
    ArtifactOpen string
  | ArtifactClose
  | ActionOpen string
  | ActionStream string string
  | ActionClose string string

text \<open>
  Modelled from the spec: the position of the state machine, \<^verbatim>\<open>OUTSIDE\<close>, \<^verbatim>\<open>IN_ARTIFACT\<close>,
  \<^verbatim>\<open>IN_ACTION(file)\<close> and \<^verbatim>\<open>IN_ACTION(non-file)\<close>, the last two with the attribute text of the
  open action.
\<close>

datatype mode = Outside | InArtifact | InFileAction string | InOtherAction string

text \<open>
  Modelled from the spec: the state of the parser for one message, its position in the
  state machine and how much of the text it has processed. The parser is called with the
  whole text so far, so the part of a tag that has arrived is the text behind the cursor.
\<close>

record parserState =
  cursor :: nat
  mode :: mode

definition initialState :: parserState where
  "initialState = \<lparr>cursor = 0, mode = Outside\<rparr>"

text \<open>
  Modelled from the spec: the tags, written as the spec writes them,
  \<^verbatim>\<open><artifact id title>\<close>, \<^verbatim>\<open></artifact>\<close>, \<^verbatim>\<open><action type filePath>\<close> and \<^verbatim>\<open></action>\<close>.
\<close>

definition artifactOpenTag :: string where
  "artifactOpenTag = ''<artifact''"

definition artifactCloseTag :: string where
  "artifactCloseTag = ''</artifact>''"

definition actionOpenTag :: string where
  "actionOpenTag = ''<action''"

definition actionCloseTag :: string where
  "actionCloseTag = ''</action>''"

text \<open>
  Modelled from the spec: whether the text at the cursor begins with a tag, is the beginning
  of the tag cut by the end of the text (\<^emph>\<open>a partial tag is detected at the end of available
  text\<close>), or is no such tag.
\<close>

datatype scan = Matched | Partial | NoMatch

definition tagAt :: "string \<Rightarrow> string \<Rightarrow> scan" where
  "tagAt rest tag =
     (if startsWith rest tag then Matched
      else if startsWith tag rest then Partial
      else NoMatch)"

text \<open>
  Modelled from the spec: one step of the single pass. \<open>Wait\<close> is the end of a call: the
  text is used up, or it ends inside a tag or inside the content of an action, and the
  cursor stays where it is. \<open>Step\<close> moves the cursor, with the events fired and the visible
  text resolved.
\<close>

datatype stepResult = Wait "event list" | Step "event list" string parserState

text \<open>
  Modelled from the spec: outside an artifact, text is visible; an opening artifact tag fires
  \<^verbatim>\<open>onArtifactOpen\<close> once its closing bracket has arrived; any other tag is literal text.
\<close>

definition stepOutside :: "string \<Rightarrow> nat \<Rightarrow> stepResult" where
  "stepOutside rest position =
     (if rest = [] then Wait []
      else if hd rest \<noteq> CHR ''<'' then Step [] [hd rest] \<lparr>cursor = position + 1, mode = Outside\<rparr>
      else
        (case tagAt rest artifactOpenTag of
           Partial \<Rightarrow> Wait []
         | NoMatch \<Rightarrow> Step [] [hd rest] \<lparr>cursor = position + 1, mode = Outside\<rparr>
         | Matched \<Rightarrow>
             (case indexOf rest ''>'' of
                None \<Rightarrow> Wait []
              | Some k \<Rightarrow>
                  Step [ArtifactOpen (take (k - length artifactOpenTag) (drop (length artifactOpenTag) rest))]
                    [] \<lparr>cursor = position + k + 1, mode = InArtifact\<rparr>)))"

text \<open>
  Modelled from the spec: inside an artifact, the closing artifact tag fires
  \<^verbatim>\<open>onArtifactClose\<close>; an opening action tag opens an action, and fires \<^verbatim>\<open>onActionOpen\<close> at once
  when the action is a file action; other text is stripped. \<open>isFile\<close> reads the type of the
  action from the attribute text of its tag.
\<close>

definition stepInArtifact :: "(string \<Rightarrow> bool) \<Rightarrow> string \<Rightarrow> nat \<Rightarrow> stepResult" where
  "stepInArtifact isFile rest position =
     (if rest = [] then Wait []
      else if hd rest \<noteq> CHR ''<'' then Step [] [] \<lparr>cursor = position + 1, mode = InArtifact\<rparr>
      else if tagAt rest artifactCloseTag = Matched
      then Step [ArtifactClose] [] \<lparr>cursor = position + length artifactCloseTag, mode = Outside\<rparr>
      else if tagAt rest actionOpenTag = Matched then
        (case indexOf rest ''>'' of
           None \<Rightarrow> Wait []
         | Some k \<Rightarrow>
             let attributes = take (k - length actionOpenTag) (drop (length actionOpenTag) rest)
             in if isFile attributes
                then Step [ActionOpen attributes] []
                       \<lparr>cursor = position + k + 1, mode = InFileAction attributes\<rparr>
                else Step [] [] \<lparr>cursor = position + k + 1, mode = InOtherAction attributes\<rparr>)
      else if tagAt rest artifactCloseTag = Partial \<or> tagAt rest actionOpenTag = Partial
      then Wait []
      else Step [] [] \<lparr>cursor = position + 1, mode = InArtifact\<rparr>)"

text \<open>
  Modelled from the spec: inside an action the text is raw content up to the closing action
  tag. A file action fires \<^verbatim>\<open>onActionStream\<close> with the content that has arrived, and
  \<^verbatim>\<open>onActionClose\<close> with the whole content at the closing tag; any other action fires open and
  close together at the closing tag.
\<close>

definition stepInAction :: "bool \<Rightarrow> string \<Rightarrow> string \<Rightarrow> nat \<Rightarrow> stepResult" where
  "stepInAction file attributes rest position =
     (case indexOf rest actionCloseTag of
        None \<Rightarrow> Wait (if file then [ActionStream attributes rest] else [])
      | Some k \<Rightarrow>
          Step ((if file then [] else [ActionOpen attributes]) @ [ActionClose attributes (take k rest)])
            [] \<lparr>cursor = position + k + length actionCloseTag, mode = InArtifact\<rparr>)"

definition parseStep :: "(string \<Rightarrow> bool) \<Rightarrow> string \<Rightarrow> parserState \<Rightarrow> stepResult" where
  "parseStep isFile input state =
     (case mode state of
        Outside \<Rightarrow> stepOutside (drop (cursor state) input) (cursor state)
      | InArtifact \<Rightarrow> stepInArtifact isFile (drop (cursor state) input) (cursor state)
      | InFileAction attributes \<Rightarrow>
          stepInAction True attributes (drop (cursor state) input) (cursor state)
      | InOtherAction attributes \<Rightarrow>
          stepInAction False attributes (drop (cursor state) input) (cursor state))"

text \<open>
  Modelled from the spec: the single pass of one call, from the committed position to the
  point where the parser has to wait for more text.
\<close>

function parseLoop ::
  "(string \<Rightarrow> bool) \<Rightarrow> string \<Rightarrow> parserState \<Rightarrow> event list \<times> string \<times> parserState" where
  "parseLoop isFile input state =
     (case parseStep isFile input state of
        Wait events \<Rightarrow> (events, [], state)
      | Step events visible state' \<Rightarrow>
          (case parseLoop isFile input state' of
             (moreEvents, moreVisible, final) \<Rightarrow> (events @ moreEvents, visible @ moreVisible, final)))"
  by pat_completeness auto
termination
proof (relation "measure (\<lambda>(isFile, input, state). length input - cursor state)")
  show "wf (measure (\<lambda>(isFile, input, state). length input - cursor state))"
    by simp
next
  fix isFile :: "string \<Rightarrow> bool" and input :: string and state state' :: parserState
    and events :: "event list" and visible :: string
  assume step: "parseStep isFile input state = Step events visible state'"
  have "drop (cursor state) input \<noteq> []"
  proof
    assume "drop (cursor state) input = []"
    then have "\<exists>waiting. parseStep isFile input state = Wait waiting"
      by (simp add: parseStep_def stepOutside_def stepInArtifact_def stepInAction_def
          actionCloseTag_def split: mode.splits)
    with step show False by auto
  qed
  then have inside: "cursor state < length input"
    by simp
  have "cursor state < cursor state'"
    using step
    by (auto simp: parseStep_def stepOutside_def stepInArtifact_def stepInAction_def Let_def
        actionCloseTag_def artifactCloseTag_def
        split: mode.splits list.splits scan.splits option.splits if_splits)
  with inside show "((isFile, input, state'), (isFile, input, state))
      \<in> measure (\<lambda>(isFile, input, state). length input - cursor state)"
    by simp
qed

declare parseLoop.simps [simp del]

text \<open>
  Modelled from the spec: \<^verbatim>\<open>parse(messageId, input)\<close>. The parser keeps one state per message
  id; a call goes on from the state of the message, returns the visible text it has
  resolved and fires the events of its pass.
\<close>

type_synonym parser = "string \<rightharpoonup> parserState"

definition parse ::
  "(string \<Rightarrow> bool) \<Rightarrow> parser \<Rightarrow> string \<Rightarrow> string \<Rightarrow> event list \<times> string \<times> parser" where
  "parse isFile messages messageId input =
     (let state = (case messages messageId of None \<Rightarrow> initialState | Some state \<Rightarrow> state)
      in case parseLoop isFile input state of
           (events, visible, final) \<Rightarrow> (events, visible, messages(messageId \<mapsto> final)))"

text \<open>The open and close events, which the claim is about.\<close>

definition isOpenOrClose :: "event \<Rightarrow> bool" where
  "isOpenOrClose e = (case e of ActionStream attributes content \<Rightarrow> False | _ \<Rightarrow> True)"

text \<open>
  Modelled from the spec: \<^verbatim>\<open>messageParser.reset()\<close>, after which the parser knows no message
  (the per-message state is \<^emph>\<open>discarded when the conversation resets\<close>).
\<close>

definition resetParser :: parser where
  "resetParser = Map.empty"

text \<open>
  Modelled from the spec: \<^emph>\<open>calling the parser repeatedly\<close>. The parser alone is called for
  one message id with each text of a list in turn, with nothing in between; the events and
  the visible text of the calls are put together. What the hook does around its calls of
  the parser is \<open>parseMessages\<close> below.
\<close>

fun parseRepeatedly ::
  "(string \<Rightarrow> bool) \<Rightarrow> parser \<Rightarrow> string \<Rightarrow> string list \<Rightarrow> event list \<times> string \<times> parser" where
  "parseRepeatedly isFile messages messageId [] = ([], [], messages)"
| "parseRepeatedly isFile messages messageId (input # inputs) =
     (case parse isFile messages messageId input of
        (events, visible, messages') \<Rightarrow>
          (case parseRepeatedly isFile messages' messageId inputs of
             (moreEvents, moreVisible, final) \<Rightarrow> (events @ moreEvents, visible @ moreVisible, final)))"

text \<open>Texts of which each begins with the one before it: a message that grows.\<close>

fun growing :: "string list \<Rightarrow> bool" where
  "growing [] = True"
| "growing [input] = True"
| "growing (input # next # inputs) = (startsWith next input \<and> growing (next # inputs))"

text \<open>
  A text delivered one character at a time: the accumulated text after each character, which
  is what the parser is called with.
\<close>

fun accumulate :: "string \<Rightarrow> string \<Rightarrow> string list" where
  "accumulate seen [] = []"
| "accumulate seen (c # cs) = (seen @ [c]) # accumulate (seen @ [c]) cs"

definition singleChars :: "string \<Rightarrow> string list" where
  "singleChars input = accumulate [] input"

subsection \<open>The hook that calls the parser\<close>

text \<open>
  A message of the chat as \<^verbatim>\<open>parseMessages\<close> reads it: its role, its id and its content, which
  is a string or an array of parts, each with a type and, if it is a text part, a text.
\<close>

record contentPart =
  partType :: string
  partText :: "string option"

datatype contentValue = Plain string | Parts "contentPart list"

record message =
  messageRole :: string
  messageIdent :: string
  messageContent :: contentValue

definition extractTextContent :: "message \<Rightarrow> string" where
  "extractTextContent message =
     (case messageContent message of
        Plain text \<Rightarrow> text
      | Parts items \<Rightarrow>
          (case find (\<lambda>item. partType item = ''text'') items of
             None \<Rightarrow> []
           | Some item \<Rightarrow> (case partText item of None \<Rightarrow> [] | Some text \<Rightarrow> text)))"

text \<open>
  The state that \<^verbatim>\<open>parseMessages\<close> works on: the parser \<^verbatim>\<open>messageParser\<close> of the module and
  the state \<^verbatim>\<open>parsedMessages\<close> of the hook, the text shown for each index. The callbacks of
  the parser are the events it fires; an event is kept with the id of the message that the
  parser was called for.

  The loop over \<^verbatim>\<open>messages.entries()\<close>: a message of the assistant or of the user is parsed,
  and the text returned is appended to the text shown at its index, or replaces it after a
  reset.
\<close>

type_synonym parsedMessages = "nat \<rightharpoonup> string"

fun parseMessagesLoop ::
  "(string \<Rightarrow> bool) \<Rightarrow> bool \<Rightarrow> nat \<Rightarrow> message list \<Rightarrow> parser \<Rightarrow> parsedMessages \<Rightarrow>
   (string \<times> event) list \<times> parser \<times> parsedMessages" where
  "parseMessagesLoop isFile reset index [] messageParser prevParsed = ([], messageParser, prevParsed)"
| "parseMessagesLoop isFile reset index (message # rest) messageParser prevParsed =
     (if messageRole message = ''assistant'' \<or> messageRole message = ''user'' then
        (case parse isFile messageParser (messageIdent message) (extractTextContent message) of
           (events, newParsedContent, messageParser') \<Rightarrow>
             (case parseMessagesLoop isFile reset (Suc index) rest messageParser'
                     (prevParsed(index \<mapsto>
                        (if \<not> reset
                         then (case prevParsed index of None \<Rightarrow> [] | Some shown \<Rightarrow> shown) @ newParsedContent
                         else newParsedContent))) of
                (moreEvents, final) \<Rightarrow> (map (Pair (messageIdent message)) events @ moreEvents, final)))
      else parseMessagesLoop isFile reset (Suc index) rest messageParser prevParsed)"

text \<open>
  \<^verbatim>\<open>parseMessages(messages, isLoading)\<close>; \<open>dev\<close> is \<^verbatim>\<open>import.meta.env.DEV\<close>. In a development
  build, a call with \<^verbatim>\<open>isLoading\<close> false resets the parser before the loop.
\<close>

definition parseMessages ::
  "(string \<Rightarrow> bool) \<Rightarrow> bool \<Rightarrow> message list \<Rightarrow> bool \<Rightarrow> parser \<times> parsedMessages \<Rightarrow>
   (string \<times> event) list \<times> parser \<times> parsedMessages" where
  "parseMessages isFile dev messages isLoading state =
     (let reset = (dev \<and> \<not> isLoading);
          messageParser = (if reset then resetParser else fst state)
      in parseMessagesLoop isFile reset 0 messages messageParser (snd state))"

text \<open>
  The hook is called again and again while a message arrives: a list of calls, each with
  its messages and its \<^verbatim>\<open>isLoading\<close>.
\<close>

fun parseMessagesCalls ::
  "(string \<Rightarrow> bool) \<Rightarrow> bool \<Rightarrow> (message list \<times> bool) list \<Rightarrow> parser \<times> parsedMessages \<Rightarrow>
   (string \<times> event) list \<times> parser \<times> parsedMessages" where
  "parseMessagesCalls isFile dev [] state = ([], state)"
| "parseMessagesCalls isFile dev ((messages, isLoading) # calls) state =
     (case parseMessages isFile dev messages isLoading state of
        (events, state') \<Rightarrow>
          (case parseMessagesCalls isFile dev calls state' of
             (moreEvents, final) \<Rightarrow> (events @ moreEvents, final)))"

text \<open>The events fired for one message id, and the texts that the calls hold for it.\<close>

definition eventsOf :: "string \<Rightarrow> (string \<times> event) list \<Rightarrow> event list" where
  "eventsOf messageId fired = map snd (filter (\<lambda>(firedFor, e). firedFor = messageId) fired)"

definition textsIn :: "string \<Rightarrow> message list \<Rightarrow> string list" where
  "textsIn messageId messages =
     map extractTextContent
       (filter (\<lambda>message. (messageRole message = ''assistant'' \<or> messageRole message = ''user'') \<and>
                           messageIdent message = messageId) messages)"

definition textsOf :: "string \<Rightarrow> (message list \<times> bool) list \<Rightarrow> string list" where
  "textsOf messageId calls = concat (map (\<lambda>(messages, isLoading). textsIn messageId messages) calls)"

text \<open>A conversation of one message of the assistant, as a list of messages.\<close>

definition oneMessage :: "string \<Rightarrow> string \<Rightarrow> message list" where
  "oneMessage messageId input =
     [\<lparr>messageRole = ''assistant'', messageIdent = messageId, messageContent = Plain input\<rparr>]"

section \<open>Facts about strings\<close>

lemma startsWith_iff: "startsWith s p \<longleftrightarrow> (\<exists>rest. s = p @ rest)"
  by (induction s p rule: startsWith.induct) auto

lemma indexOf_Some:
  "indexOf s p = Some n \<Longrightarrow> s = take n s @ p @ drop (n + length p) s \<and> n + length p \<le> length s"
proof (induction s arbitrary: n)
  case Nil
  then show ?case by (simp split: if_splits)
next
  case (Cons c cs)
  show ?case
  proof (cases "startsWith (c # cs) p")
    case True
    then obtain rest where "c # cs = p @ rest"
      by (auto simp: startsWith_iff)
    moreover have "n = 0"
      using Cons.prems True by simp
    ultimately show ?thesis by simp
  next
    case False
    then obtain m where m: "indexOf cs p = Some m" "n = Suc m"
      using Cons.prems by auto
    from Cons.IH [OF m(1)] show ?thesis
      by (simp add: m(2))
  qed
qed

lemma includesStr_indexOf: "includesStr s p \<longleftrightarrow> indexOf s p \<noteq> None"
  by (induction s) auto

lemma includesStr_middle: "includesStr (a @ p @ b) p"
proof (induction a)
  case Nil
  have "startsWith (p @ b) p"
    by (auto simp: startsWith_iff)
  then show ?case
    by (cases "p @ b") (auto simp: startsWith_iff)
next
  case (Cons c a)
  then show ?case by simp
qed

section \<open>Facts about the fly-deploy log stream\<close>

lemma seqs_Nil: "seqs [] = ([], Inr ())"
  by (simp add: seqs_def skip_def)

lemma seqs_Cons: "seqs (c # cs) = seq c (seqs cs)"
  by (simp add: seqs_def)

lemma seqs_no_throw:
  "\<forall>c \<in> set cs. snd c = Inr () \<Longrightarrow> seqs cs = (concat (map fst cs), Inr ())"
  by (induction cs) (simp_all add: seqs_Nil seqs_Cons seq_def)

lemma createAppData_no_throw: "snd (createAppData flyAppName d) = Inr ()"
  by (cases d) (simp_all add: log_def)

lemma createAppData_is_log: "\<exists>m. fst (createAppData flyAppName d) = [Log m]"
  by (cases d) (simp_all add: log_def)

lemma awaitCreateApp_eq:
  "awaitCreateApp flyAppName run =
     (concat (map (\<lambda>d. fst (createAppData flyAppName d)) (fst run)), Inr ())"
  unfolding awaitCreateApp_def
  by (subst seqs_no_throw) (simp_all add: createAppData_no_throw comp_def)

lemma step1Header_no_throw: "snd (step1Header a r p) = Inr ()"
  by (simp add: step1Header_def seqs_Nil seqs_Cons seq_def log_def)

lemma step2Header_no_throw: "snd step2Header = Inr ()"
  by (simp add: step2Header_def seqs_Nil seqs_Cons seq_def log_def)

lemma step3Report_no_throw: "snd (step3Report a) = Inr ()"
  by (simp add: step3Report_def seqs_Nil seqs_Cons seq_def log_def)

lemma failureBlock_no_throw: "snd (failureBlock e) = Inr ()"
  by (simp add: failureBlock_def seqs_Nil seqs_Cons seq_def log_def)

lemma awaitDeploy_eq:
  "awaitDeploy run =
     (map (\<lambda>d. Log (dataText d)) (fst run),
      case snd run of
        Close code \<Rightarrow> deployClose (deployOutputOf (fst run)) code
      | ProcError msg \<Rightarrow> Inl (JsError msg))"
proof -
  have "seqs (map (\<lambda>d. log (dataText d)) (fst run)) = (map (\<lambda>d. Log (dataText d)) (fst run), Inr ())"
    by (subst seqs_no_throw) (simp_all add: log_def comp_def)
  then show ?thesis
    by (simp add: awaitDeploy_def seq_def)
qed

lemma cleanup_eq:
  "seq (tryIgnore (rm dir rmOk)) controllerClose = ([Rm dir, ControllerClose], Inr ())"
  by (simp add: seq_def tryIgnore_def rm_def controllerClose_def)

lemma body_rejected:
  assumes "snd (awaitDeploy deployRun) = Inl e"
  shows "seqs [step1Header app region port, awaitCreateApp app createRun, step2Header,
               awaitDeploy deployRun, step3Report app] =
         (fst (step1Header app region port) @ fst (awaitCreateApp app createRun) @
          fst step2Header @ fst (awaitDeploy deployRun), Inl e)"
  using assms
  by (simp add: seqs_Cons seqs_Nil seq_def step1Header_no_throw step2Header_no_throw
      awaitCreateApp_eq)

lemma body_resolved:
  assumes "snd (awaitDeploy deployRun) = Inr ()"
  shows "seqs [step1Header app region port, awaitCreateApp app createRun, step2Header,
               awaitDeploy deployRun, step3Report app] =
         (fst (step1Header app region port) @ fst (awaitCreateApp app createRun) @
          fst step2Header @ fst (awaitDeploy deployRun) @ fst (step3Report app), Inr ())"
  using assms
  by (simp add: seqs_Cons seqs_Nil seq_def step1Header_no_throw step2Header_no_throw
      step3Report_no_throw awaitCreateApp_eq)

lemma flyStream_rejected:
  assumes "snd (awaitDeploy deployRun) = Inl e"
  shows "flyStream app region port dir createRun deployRun rmOk =
         (fst (step1Header app region port) @ fst (awaitCreateApp app createRun) @
          fst step2Header @ fst (awaitDeploy deployRun) @ fst (failureBlock e) @
          [Rm dir, ControllerClose], Inr ())"
  unfolding flyStream_def body_rejected [OF assms] cleanup_eq
  by (simp add: tryCatchFinally_def failureBlock_no_throw)

lemma flyStream_resolved:
  assumes "snd (awaitDeploy deployRun) = Inr ()"
  shows "flyStream app region port dir createRun deployRun rmOk =
         (fst (step1Header app region port) @ fst (awaitCreateApp app createRun) @
          fst step2Header @ fst (awaitDeploy deployRun) @ fst (step3Report app) @
          [Rm dir, ControllerClose], Inr ())"
  unfolding flyStream_def body_resolved [OF assms] cleanup_eq
  by (simp add: tryCatchFinally_def)

lemma isLog_seqs_logs: "list_all isLog (fst (seqs (map log ms)))"
  by (induction ms) (simp_all add: seqs_Nil seqs_Cons seq_def log_def isLog_def)

lemma step1Header_logs: "list_all isLog (fst (step1Header a r p))"
  by (simp add: step1Header_def seqs_Nil seqs_Cons seq_def log_def isLog_def)

lemma step2Header_logs: "list_all isLog (fst step2Header)"
  by (simp add: step2Header_def seqs_Nil seqs_Cons seq_def log_def isLog_def)

lemma step3Report_logs: "list_all isLog (fst (step3Report a))"
  by (simp add: step3Report_def seqs_Nil seqs_Cons seq_def log_def isLog_def)

lemma failureBlock_logs: "list_all isLog (fst (failureBlock e))"
  by (simp add: failureBlock_def seqs_Nil seqs_Cons seq_def log_def isLog_def)

lemma awaitCreateApp_logs: "list_all isLog (fst (awaitCreateApp a run))"
proof -
  have "list_all isLog (concat (map (\<lambda>d. fst (createAppData a d)) ds))" for ds
  proof (induction ds)
    case Nil
    show ?case by simp
  next
    case (Cons d ds)
    obtain m where "fst (createAppData a d) = [Log m]"
      using createAppData_is_log by blast
    with Cons show ?case by (simp add: isLog_def)
  qed
  then show ?thesis by (simp add: awaitCreateApp_eq)
qed

lemma awaitDeploy_logs: "list_all isLog (fst (awaitDeploy run))"
  by (simp add: awaitDeploy_eq list_all_iff isLog_def)

text \<open>
  Claim C1. When the \<^verbatim>\<open>flyctl deploy\<close> subprocess closes with exit code 0 and the output
  accumulated from its stdout and stderr contains none of the four success phrases, the
  promise of step 2 rejects: after the subprocess output the log receives the failure marker
  and the troubleshooting block, the success report of step 3 is not written, and the
  stream ends with the cleanup.
\<close>

theorem zero_exit_without_success_phrase_is_failure:
  assumes "snd deployRun = Close (Some 0)"
    and "\<not> includesStr (deployOutputOf (fst deployRun)) ''has been deployed''"
    and "\<not> includesStr (deployOutputOf (fst deployRun)) ''deployed successfully''"
    and "\<not> includesStr (deployOutputOf (fst deployRun)) ''Machines are starting''"
    and "\<not> includesStr (deployOutputOf (fst deployRun)) ''Visit your newly deployed app''"
  shows "flyStream flyAppName flyRegion port buildDir createRun deployRun rmOk =
         (fst (step1Header flyAppName flyRegion port) @
          fst (awaitCreateApp flyAppName createRun) @
          fst step2Header @
          map (\<lambda>d. Log (dataText d)) (fst deployRun) @
          [Log (nl @ cross_mark @ '' Deployment failed: flyctl exited but deployment did not complete. Check the log above for details.'' @ nl),
           Log (nl @ ''Troubleshooting:'' @ nl),
           Log (''  1. Run '' @ dq @ ''flyctl auth login'' @ dq @ '' to ensure you're authenticated'' @ nl),
           Log (''  2. Run '' @ dq @ ''flyctl apps list'' @ dq @ '' to check your apps'' @ nl),
           Log (''  3. Check your Dockerfile for build errors'' @ nl)] @
          [Rm buildDir, ControllerClose], Inr ())"
proof -
  let ?e = "JsError ''flyctl exited but deployment did not complete. Check the log above for details.''"
  have rejected: "snd (awaitDeploy deployRun) = Inl ?e"
    using assms by (simp add: awaitDeploy_eq deployClose_def actuallyDeployed_def)
  have block: "fst (failureBlock ?e) =
      [Log (nl @ cross_mark @ '' Deployment failed: flyctl exited but deployment did not complete. Check the log above for details.'' @ nl),
       Log (nl @ ''Troubleshooting:'' @ nl),
       Log (''  1. Run '' @ dq @ ''flyctl auth login'' @ dq @ '' to ensure you're authenticated'' @ nl),
       Log (''  2. Run '' @ dq @ ''flyctl apps list'' @ dq @ '' to check your apps'' @ nl),
       Log (''  3. Check your Dockerfile for build errors'' @ nl)]"
    by (simp add: failureBlock_def seqs_Nil seqs_Cons seq_def log_def exnMessage_def)
  show ?thesis
    unfolding flyStream_rejected [OF rejected] block
    by (simp add: awaitDeploy_eq)
qed

theorem zero_exit_without_success_phrase_is_failure_witness:
  "flyStream ''demo-ab12'' ''iad'' 3000 ''/tmp/bolt-fly-deploy-1''
     ([], Close (Some 0)) ([Stdout ''Usage: flyctl deploy [flags]''], Close (Some 0)) True =
   (fst (step1Header ''demo-ab12'' ''iad'' 3000) @
    [] @
    fst step2Header @
    [Log ''Usage: flyctl deploy [flags]''] @
    [Log (nl @ cross_mark @ '' Deployment failed: flyctl exited but deployment did not complete. Check the log above for details.'' @ nl),
     Log (nl @ ''Troubleshooting:'' @ nl),
     Log (''  1. Run '' @ dq @ ''flyctl auth login'' @ dq @ '' to ensure you're authenticated'' @ nl),
     Log (''  2. Run '' @ dq @ ''flyctl apps list'' @ dq @ '' to check your apps'' @ nl),
     Log (''  3. Check your Dockerfile for build errors'' @ nl)] @
    [Rm ''/tmp/bolt-fly-deploy-1'', ControllerClose], Inr ())"
  using zero_exit_without_success_phrase_is_failure
    [of "([Stdout ''Usage: flyctl deploy [flags]''], Close (Some 0))"
        "''demo-ab12''" "''iad''" 3000 "''/tmp/bolt-fly-deploy-1''" "([], Close (Some 0))" True]
  by (simp add: deployOutputOf_def dataText_def awaitCreateApp_def seqs_def skip_def)

lemma deploy_outcome:
  "snd (awaitDeploy deployRun) =
     (if snd deployRun = Close (Some 0) \<and>
         (includesStr (deployOutputOf (fst deployRun)) ''has been deployed'' \<or>
          includesStr (deployOutputOf (fst deployRun)) ''deployed successfully'' \<or>
          includesStr (deployOutputOf (fst deployRun)) ''Machines are starting'' \<or>
          includesStr (deployOutputOf (fst deployRun)) ''Visit your newly deployed app'')
      then Inr ()
      else Inl (JsError
        (case snd deployRun of
           ProcError msg \<Rightarrow> msg
         | Close code \<Rightarrow>
             if code = Some 0
             then ''flyctl exited but deployment did not complete. Check the log above for details.''
             else ''flyctl deploy exited with code '' @
                  (case code of None \<Rightarrow> ''null'' | Some c \<Rightarrow> showInt c))))"
  by (cases "snd deployRun")
    (auto simp: awaitDeploy_eq deployClose_def actuallyDeployed_def codeString_def)

lemma failureBlock_eq:
  "fst (failureBlock (JsError message)) =
     [Log (nl @ cross_mark @ '' Deployment failed: '' @ message @ nl),
      Log (nl @ ''Troubleshooting:'' @ nl),
      Log (''  1. Run '' @ dq @ ''flyctl auth login'' @ dq @ '' to ensure you're authenticated'' @ nl),
      Log (''  2. Run '' @ dq @ ''flyctl apps list'' @ dq @ '' to check your apps'' @ nl),
      Log (''  3. Check your Dockerfile for build errors'' @ nl)]"
  by (simp add: failureBlock_def seqs_Nil seqs_Cons seq_def log_def exnMessage_def)

lemma step2Header_eq:
  "fst step2Header =
     [Log (nl @ ''[2/3] Deploying to Fly.io (this builds the Docker image on Fly's remote builders)...'' @ nl),
      Log (''       Using Dockerfile from project.'' @ nl @ nl)]"
  by (simp add: step2Header_def seqs_Nil seqs_Cons seq_def log_def)

lemma step3Report_eq:
  "fst (step3Report flyAppName) =
     [Log (nl @ ''[3/3] Deployment complete!'' @ nl),
      Log (nl @ check_mark @ '' App deployed successfully to Fly.io'' @ nl),
      Log (''  URL: https://'' @ flyAppName @ ''.fly.dev'' @ nl),
      Log (''  Dashboard: https://fly.io/apps/'' @ flyAppName @ nl),
      Log (nl @ ''  To check status: flyctl status --app '' @ flyAppName @ nl),
      Log (''  To view logs:    flyctl logs --app '' @ flyAppName @ nl)]"
  by (simp add: step3Report_def seqs_Nil seqs_Cons seq_def log_def)

text \<open>
  Claim C7, as amended. Whatever the two subprocesses do (any data events, any exit code, an
  \<^verbatim>\<open>error\<close> event) and whether or not \<^verbatim>\<open>rm\<close> rejects, the run of the stream callback is
  a sequence of log writes followed by one call of \<^verbatim>\<open>rm\<close> on the build directory, whose
  rejection is ignored, and the close of the controller, in this order, and the callback
  does not throw. Step 1 never fails the run: whatever \<^verbatim>\<open>flyctl apps create\<close> did, the header
  and the output of step 2 follow. When step 2 fails (an \<^verbatim>\<open>error\<close> event, an exit code other
  than 0, or exit code 0 without a success phrase in the output), the log ends with the
  failure line and the four lines of the troubleshooting block, and the report of step 3
  is not written. When step 2 succeeds, the log ends with the six lines of step 3 and has
  no troubleshooting block.
\<close>

theorem cleanup_and_close_always_run:
  "\<exists>pre. flyStream flyAppName flyRegion port buildDir createRun deployRun rmOk =
            (pre @ [Rm buildDir, ControllerClose], Inr ()) \<and>
         list_all isLog pre \<and>
         (snd deployRun = Close (Some 0) \<and>
          (includesStr (deployOutputOf (fst deployRun)) ''has been deployed'' \<or>
           includesStr (deployOutputOf (fst deployRun)) ''deployed successfully'' \<or>
           includesStr (deployOutputOf (fst deployRun)) ''Machines are starting'' \<or>
           includesStr (deployOutputOf (fst deployRun)) ''Visit your newly deployed app'') \<longrightarrow>
            pre = fst (step1Header flyAppName flyRegion port) @
                  fst (awaitCreateApp flyAppName createRun) @
                  [Log (nl @ ''[2/3] Deploying to Fly.io (this builds the Docker image on Fly's remote builders)...'' @ nl),
                   Log (''       Using Dockerfile from project.'' @ nl @ nl)] @
                  map (\<lambda>d. Log (dataText d)) (fst deployRun) @
                  [Log (nl @ ''[3/3] Deployment complete!'' @ nl),
                   Log (nl @ check_mark @ '' App deployed successfully to Fly.io'' @ nl),
                   Log (''  URL: https://'' @ flyAppName @ ''.fly.dev'' @ nl),
                   Log (''  Dashboard: https://fly.io/apps/'' @ flyAppName @ nl),
                   Log (nl @ ''  To check status: flyctl status --app '' @ flyAppName @ nl),
                   Log (''  To view logs:    flyctl logs --app '' @ flyAppName @ nl)]) \<and>
         (\<not> (snd deployRun = Close (Some 0) \<and>
             (includesStr (deployOutputOf (fst deployRun)) ''has been deployed'' \<or>
              includesStr (deployOutputOf (fst deployRun)) ''deployed successfully'' \<or>
              includesStr (deployOutputOf (fst deployRun)) ''Machines are starting'' \<or>
              includesStr (deployOutputOf (fst deployRun)) ''Visit your newly deployed app'')) \<longrightarrow>
            pre = fst (step1Header flyAppName flyRegion port) @
                  fst (awaitCreateApp flyAppName createRun) @
                  [Log (nl @ ''[2/3] Deploying to Fly.io (this builds the Docker image on Fly's remote builders)...'' @ nl),
                   Log (''       Using Dockerfile from project.'' @ nl @ nl)] @
                  map (\<lambda>d. Log (dataText d)) (fst deployRun) @
                  [Log (nl @ cross_mark @ '' Deployment failed: '' @
                        (case snd deployRun of
                           ProcError msg \<Rightarrow> msg
                         | Close code \<Rightarrow>
                             if code = Some 0
                             then ''flyctl exited but deployment did not complete. Check the log above for details.''
                             else ''flyctl deploy exited with code '' @
                                  (case code of None \<Rightarrow> ''null'' | Some c \<Rightarrow> showInt c)) @ nl),
                   Log (nl @ ''Troubleshooting:'' @ nl),
                   Log (''  1. Run '' @ dq @ ''flyctl auth login'' @ dq @ '' to ensure you're authenticated'' @ nl),
                   Log (''  2. Run '' @ dq @ ''flyctl apps list'' @ dq @ '' to check your apps'' @ nl),
                   Log (''  3. Check your Dockerfile for build errors'' @ nl)])"
proof (cases "snd deployRun = Close (Some 0) \<and>
          (includesStr (deployOutputOf (fst deployRun)) ''has been deployed'' \<or>
           includesStr (deployOutputOf (fst deployRun)) ''deployed successfully'' \<or>
           includesStr (deployOutputOf (fst deployRun)) ''Machines are starting'' \<or>
           includesStr (deployOutputOf (fst deployRun)) ''Visit your newly deployed app'')")
  case True
  then have resolved: "snd (awaitDeploy deployRun) = Inr ()"
    by (simp add: deploy_outcome)
  let ?pre = "fst (step1Header flyAppName flyRegion port) @
      fst (awaitCreateApp flyAppName createRun) @ fst step2Header @
      fst (awaitDeploy deployRun) @ fst (step3Report flyAppName)"
  have "flyStream flyAppName flyRegion port buildDir createRun deployRun rmOk =
        (?pre @ [Rm buildDir, ControllerClose], Inr ())"
    unfolding flyStream_resolved [OF resolved] by simp
  moreover have "list_all isLog ?pre"
    by (simp add: step1Header_logs step2Header_logs awaitCreateApp_logs awaitDeploy_logs
        step3Report_logs)
  moreover have "?pre = fst (step1Header flyAppName flyRegion port) @
      fst (awaitCreateApp flyAppName createRun) @ fst step2Header @
      map (\<lambda>d. Log (dataText d)) (fst deployRun) @ fst (step3Report flyAppName)"
    by (simp add: awaitDeploy_eq)
  ultimately show ?thesis
    using True unfolding step2Header_eq step3Report_eq by blast
next
  case False
  let ?message = "case snd deployRun of
      ProcError msg \<Rightarrow> msg
    | Close code \<Rightarrow>
        if code = Some 0
        then ''flyctl exited but deployment did not complete. Check the log above for details.''
        else ''flyctl deploy exited with code '' @
             (case code of None \<Rightarrow> ''null'' | Some c \<Rightarrow> showInt c)"
  from False have rejected: "snd (awaitDeploy deployRun) = Inl (JsError ?message)"
    by (simp only: deploy_outcome if_False)
  let ?pre = "fst (step1Header flyAppName flyRegion port) @
      fst (awaitCreateApp flyAppName createRun) @ fst step2Header @
      fst (awaitDeploy deployRun) @ fst (failureBlock (JsError ?message))"
  have "flyStream flyAppName flyRegion port buildDir createRun deployRun rmOk =
        (?pre @ [Rm buildDir, ControllerClose], Inr ())"
    unfolding flyStream_rejected [OF rejected] by simp
  moreover have "list_all isLog ?pre"
    by (simp add: step1Header_logs step2Header_logs awaitCreateApp_logs awaitDeploy_logs
        failureBlock_logs)
  moreover have "?pre = fst (step1Header flyAppName flyRegion port) @
      fst (awaitCreateApp flyAppName createRun) @ fst step2Header @
      map (\<lambda>d. Log (dataText d)) (fst deployRun) @ fst (failureBlock (JsError ?message))"
    by (simp add: awaitDeploy_eq)
  ultimately show ?thesis
    using False unfolding step2Header_eq failureBlock_eq by blast
qed

theorem cleanup_and_close_always_run_witness:
  "flyStream ''demo-ab12'' ''iad'' 3000 ''/tmp/bolt-fly-deploy-1''
     ([], ProcError ''spawn flyctl ENOENT'') ([Stderr ''boom''], Close (Some 1)) False =
   (fst (step1Header ''demo-ab12'' ''iad'' 3000) @
    [Log (nl @ ''[2/3] Deploying to Fly.io (this builds the Docker image on Fly's remote builders)...'' @ nl),
     Log (''       Using Dockerfile from project.'' @ nl @ nl),
     Log ''boom'',
     Log (nl @ cross_mark @ '' Deployment failed: flyctl deploy exited with code 1'' @ nl),
     Log (nl @ ''Troubleshooting:'' @ nl),
     Log (''  1. Run '' @ dq @ ''flyctl auth login'' @ dq @ '' to ensure you're authenticated'' @ nl),
     Log (''  2. Run '' @ dq @ ''flyctl apps list'' @ dq @ '' to check your apps'' @ nl),
     Log (''  3. Check your Dockerfile for build errors'' @ nl),
     Rm ''/tmp/bolt-fly-deploy-1'', ControllerClose], Inr ()) \<and>
   flyStream ''demo-ab12'' ''iad'' 3000 ''/tmp/bolt-fly-deploy-1''
     ([], Close (Some 0)) ([Stdout ''v1 has been deployed''], Close (Some 0)) True =
   (fst (step1Header ''demo-ab12'' ''iad'' 3000) @
    [Log (nl @ ''[2/3] Deploying to Fly.io (this builds the Docker image on Fly's remote builders)...'' @ nl),
     Log (''       Using Dockerfile from project.'' @ nl @ nl),
     Log ''v1 has been deployed'',
     Log (nl @ ''[3/3] Deployment complete!'' @ nl),
     Log (nl @ check_mark @ '' App deployed successfully to Fly.io'' @ nl),
     Log (''  URL: https://demo-ab12.fly.dev'' @ nl),
     Log (''  Dashboard: https://fly.io/apps/demo-ab12'' @ nl),
     Log (nl @ ''  To check status: flyctl status --app demo-ab12'' @ nl),
     Log (''  To view logs:    flyctl logs --app demo-ab12'' @ nl),
     Rm ''/tmp/bolt-fly-deploy-1'', ControllerClose], Inr ())"
proof -
  have code: "showInt 1 = ''1''"
    by (simp add: showInt_def showNat_def toStringRadix.simps digitChar_def char_of_def bit_0)
  have none: "fst (awaitCreateApp ''demo-ab12'' ([], e)) = []" for e
    by (simp add: awaitCreateApp_eq)
  have failed: "\<not> (snd ([Stderr ''boom''], Close (Some 1)) = Close (Some 0) \<and>
      (includesStr (deployOutputOf (fst ([Stderr ''boom''], Close (Some 1)))) ''has been deployed'' \<or>
       includesStr (deployOutputOf (fst ([Stderr ''boom''], Close (Some 1)))) ''deployed successfully'' \<or>
       includesStr (deployOutputOf (fst ([Stderr ''boom''], Close (Some 1)))) ''Machines are starting'' \<or>
       includesStr (deployOutputOf (fst ([Stderr ''boom''], Close (Some 1)))) ''Visit your newly deployed app''))"
    by simp
  have deployed: "snd ([Stdout ''v1 has been deployed''], Close (Some 0)) = Close (Some 0) \<and>
      (includesStr (deployOutputOf (fst ([Stdout ''v1 has been deployed''], Close (Some 0)))) ''has been deployed'' \<or>
       includesStr (deployOutputOf (fst ([Stdout ''v1 has been deployed''], Close (Some 0)))) ''deployed successfully'' \<or>
       includesStr (deployOutputOf (fst ([Stdout ''v1 has been deployed''], Close (Some 0)))) ''Machines are starting'' \<or>
       includesStr (deployOutputOf (fst ([Stdout ''v1 has been deployed''], Close (Some 0)))) ''Visit your newly deployed app'')"
    by (simp add: deployOutputOf_def dataText_def)
  from cleanup_and_close_always_run
    [of "''demo-ab12''" "''iad''" 3000 "''/tmp/bolt-fly-deploy-1''"
        "([], ProcError ''spawn flyctl ENOENT'')" "([Stderr ''boom''], Close (Some 1))" False]
    failed
  have first: "flyStream ''demo-ab12'' ''iad'' 3000 ''/tmp/bolt-fly-deploy-1''
     ([], ProcError ''spawn flyctl ENOENT'') ([Stderr ''boom''], Close (Some 1)) False =
   (fst (step1Header ''demo-ab12'' ''iad'' 3000) @
    [Log (nl @ ''[2/3] Deploying to Fly.io (this builds the Docker image on Fly's remote builders)...'' @ nl),
     Log (''       Using Dockerfile from project.'' @ nl @ nl),
     Log ''boom'',
     Log (nl @ cross_mark @ '' Deployment failed: flyctl deploy exited with code 1'' @ nl),
     Log (nl @ ''Troubleshooting:'' @ nl),
     Log (''  1. Run '' @ dq @ ''flyctl auth login'' @ dq @ '' to ensure you're authenticated'' @ nl),
     Log (''  2. Run '' @ dq @ ''flyctl apps list'' @ dq @ '' to check your apps'' @ nl),
     Log (''  3. Check your Dockerfile for build errors'' @ nl),
     Rm ''/tmp/bolt-fly-deploy-1'', ControllerClose], Inr ())"
    by (auto simp: none code dataText_def)
  from cleanup_and_close_always_run
    [of "''demo-ab12''" "''iad''" 3000 "''/tmp/bolt-fly-deploy-1''"
        "([], Close (Some 0))" "([Stdout ''v1 has been deployed''], Close (Some 0))" True]
    deployed
  have second: "flyStream ''demo-ab12'' ''iad'' 3000 ''/tmp/bolt-fly-deploy-1''
     ([], Close (Some 0)) ([Stdout ''v1 has been deployed''], Close (Some 0)) True =
   (fst (step1Header ''demo-ab12'' ''iad'' 3000) @
    [Log (nl @ ''[2/3] Deploying to Fly.io (this builds the Docker image on Fly's remote builders)...'' @ nl),
     Log (''       Using Dockerfile from project.'' @ nl @ nl),
     Log ''v1 has been deployed'',
     Log (nl @ ''[3/3] Deployment complete!'' @ nl),
     Log (nl @ check_mark @ '' App deployed successfully to Fly.io'' @ nl),
     Log (''  URL: https://demo-ab12.fly.dev'' @ nl),
     Log (''  Dashboard: https://fly.io/apps/demo-ab12'' @ nl),
     Log (nl @ ''  To check status: flyctl status --app demo-ab12'' @ nl),
     Log (''  To view logs:    flyctl logs --app demo-ab12'' @ nl),
     Rm ''/tmp/bolt-fly-deploy-1'', ControllerClose], Inr ())"
    by (auto simp: none dataText_def)
  from first second show ?thesis
    by (rule conjI)
qed

text \<open>
  The claim as stated has every step failure skip the remaining steps and write the
  troubleshooting block, and has the build directory removed. In this run
  \<^verbatim>\<open>flyctl apps create\<close> fails with exit code 1 and \<^verbatim>\<open>rm\<close> rejects: steps 2 and 3 are run all the
  same, no troubleshooting block is written, and the callback closes the controller
  without the directory having been removed.
\<close>

theorem provision_failure_skips_nothing_counterexample:
  "flyStream ''demo-ab12'' ''iad'' 3000 ''/tmp/bolt-fly-deploy-1''
     ([Stderr ''Error: not authorized''], Close (Some 1))
     ([Stdout ''v1 has been deployed''], Close (Some 0)) False =
   ([Log (''[1/3] Creating Fly.io app '' @ dq @ ''demo-ab12'' @ dq @ '' in region '' @ dq @ ''iad'' @ dq @ ''...'' @ nl),
     Log (''       Detected internal port: 3000'' @ nl),
     Log ''Error: not authorized'',
     Log (nl @ ''[2/3] Deploying to Fly.io (this builds the Docker image on Fly's remote builders)...'' @ nl),
     Log (''       Using Dockerfile from project.'' @ nl @ nl),
     Log ''v1 has been deployed'',
     Log (nl @ ''[3/3] Deployment complete!'' @ nl),
     Log (nl @ check_mark @ '' App deployed successfully to Fly.io'' @ nl),
     Log (''  URL: https://demo-ab12.fly.dev'' @ nl),
     Log (''  Dashboard: https://fly.io/apps/demo-ab12'' @ nl),
     Log (nl @ ''  To check status: flyctl status --app demo-ab12'' @ nl),
     Log (''  To view logs:    flyctl logs --app demo-ab12'' @ nl),
     Rm ''/tmp/bolt-fly-deploy-1'', ControllerClose], Inr ()) \<and>
   snd (rm ''/tmp/bolt-fly-deploy-1'' False) = Inl (JsError ''rm failed'')"
proof -
  have port: "showNat 3000 = ''3000''"
    by (simp add: showNat_def toStringRadix.simps digitChar_def char_of_def bit_0)
  have header: "fst (step1Header ''demo-ab12'' ''iad'' 3000) =
      [Log (''[1/3] Creating Fly.io app '' @ dq @ ''demo-ab12'' @ dq @ '' in region '' @ dq @ ''iad'' @ dq @ ''...'' @ nl),
       Log (''       Detected internal port: 3000'' @ nl)]"
    by (simp add: step1Header_def seqs_Nil seqs_Cons seq_def log_def port)
  have resolved: "snd (awaitDeploy ([Stdout ''v1 has been deployed''], Close (Some 0))) = Inr ()"
    by (simp add: deploy_outcome deployOutputOf_def dataText_def)
  show ?thesis
    unfolding flyStream_resolved [OF resolved] header step2Header_eq step3Report_eq
    by (simp add: awaitCreateApp_eq awaitDeploy_eq log_def dataText_def rm_def)
qed

text \<open>
  Claim C8, as amended. The handler of the stderr of \<^verbatim>\<open>flyctl apps create\<close> looks at each
  data event on its own: an event whose text includes \<^verbatim>\<open>already exists\<close> writes the reuse
  message to the log in place of its text, every other event of stderr and every event of
  stdout writes its text. The promise of step 1 never rejects, whatever the subprocess wrote
  and however it ended, and the log always goes on with the header of step 2 and the output
  of the deploy subprocess.
\<close>

theorem already_exists_is_not_an_error:
  "fst (awaitCreateApp flyAppName createRun) =
     map (\<lambda>d. case d of
                 Stdout text \<Rightarrow> Log text
               | Stderr msg \<Rightarrow>
                   if includesStr msg ''already exists''
                   then Log (''App '' @ dq @ flyAppName @ dq @ '' already exists, reusing it.'' @ nl)
                   else Log msg)
       (fst createRun) \<and>
   snd (awaitCreateApp flyAppName createRun) = Inr () \<and>
   (\<exists>rest. fst (flyStream flyAppName flyRegion port buildDir createRun deployRun rmOk) =
      fst (step1Header flyAppName flyRegion port) @
      fst (awaitCreateApp flyAppName createRun) @
      [Log (nl @ ''[2/3] Deploying to Fly.io (this builds the Docker image on Fly's remote builders)...'' @ nl),
       Log (''       Using Dockerfile from project.'' @ nl @ nl)] @
      map (\<lambda>d. Log (dataText d)) (fst deployRun) @ rest)"
proof -
  have hdr: "fst step2Header =
      [Log (nl @ ''[2/3] Deploying to Fly.io (this builds the Docker image on Fly's remote builders)...'' @ nl),
       Log (''       Using Dockerfile from project.'' @ nl @ nl)]"
    by (simp add: step2Header_def seqs_Nil seqs_Cons seq_def log_def)
  have each: "fst (createAppData flyAppName d) =
      [case d of
         Stdout text \<Rightarrow> Log text
       | Stderr msg \<Rightarrow>
           if includesStr msg ''already exists''
           then Log (''App '' @ dq @ flyAppName @ dq @ '' already exists, reusing it.'' @ nl)
           else Log msg]" for d
    by (cases d) (simp_all add: log_def reuseMessage_def)
  have logged: "concat (map (\<lambda>d. fst (createAppData flyAppName d)) ds) =
      map (\<lambda>d. case d of
                 Stdout text \<Rightarrow> Log text
               | Stderr msg \<Rightarrow>
                   if includesStr msg ''already exists''
                   then Log (''App '' @ dq @ flyAppName @ dq @ '' already exists, reusing it.'' @ nl)
                   else Log msg) ds" for ds
    by (induction ds) (simp_all add: each)
  have "\<exists>rest. fst (flyStream flyAppName flyRegion port buildDir createRun deployRun rmOk) =
      fst (step1Header flyAppName flyRegion port) @
      fst (awaitCreateApp flyAppName createRun) @
      fst step2Header @ map (\<lambda>d. Log (dataText d)) (fst deployRun) @ rest"
  proof (cases "snd (awaitDeploy deployRun)")
    case (Inl e)
    show ?thesis
      unfolding flyStream_rejected [OF Inl] by (simp add: awaitDeploy_eq)
  next
    case (Inr u)
    then have r: "snd (awaitDeploy deployRun) = Inr ()" by simp
    show ?thesis
      unfolding flyStream_resolved [OF r] by (simp add: awaitDeploy_eq)
  qed
  then show ?thesis
    by (simp add: hdr awaitCreateApp_eq logged)
qed

theorem already_exists_is_not_an_error_witness:
  "fst (awaitCreateApp ''demo-ab12''
          ([Stdout ''creating'', Stderr ''Error: app already exists'', Stderr ''warning: slow''],
           Close (Some 1))) =
     [Log ''creating'',
      Log (''App '' @ dq @ ''demo-ab12'' @ dq @ '' already exists, reusing it.'' @ nl),
      Log ''warning: slow''] \<and>
   snd (awaitCreateApp ''demo-ab12''
          ([Stdout ''creating'', Stderr ''Error: app already exists'', Stderr ''warning: slow''],
           Close (Some 1))) = Inr ()"
  using already_exists_is_not_an_error
    [of "''demo-ab12''"
        "([Stdout ''creating'', Stderr ''Error: app already exists'', Stderr ''warning: slow''],
          Close (Some 1))"]
  by simp

text \<open>
  The claim as stated speaks of what the stderr of the attempt reports. Here the stderr
  reports \<^verbatim>\<open>Error: app already exists\<close> in two data events, cut inside the phrase: neither
  event includes the phrase, both are written to the log as they are, and no reuse message
  is written.
\<close>

theorem already_exists_split_across_events_counterexample:
  "includesStr (''Error: app alre'' @ ''ady exists'') ''already exists'' \<and>
   fst (awaitCreateApp ''demo-ab12''
          ([Stderr ''Error: app alre'', Stderr ''ady exists''], Close (Some 1))) =
     [Log ''Error: app alre'', Log ''ady exists'']"
  by (simp add: awaitCreateApp_eq log_def)

section \<open>Facts about the tar header\<close>

lemma length_toStringRadix:
  "2 \<le> r \<Longrightarrow> n < r ^ k \<Longrightarrow> 0 < k \<Longrightarrow> length (toStringRadix r n) \<le> k"
proof (induction r n arbitrary: k rule: toStringRadix.induct)
  case (1 r n)
  show ?case
  proof (cases "n < r")
    case True
    then show ?thesis using "1.prems" by (subst toStringRadix.simps) simp
  next
    case False
    with "1.prems" have k1: "1 < k"
      by (cases "k = 1") auto
    then obtain k' where k': "k = Suc k'" "0 < k'"
      by (cases k) auto
    have "n div r < r ^ k'"
      using "1.prems" k' by (simp add: less_mult_imp_div_less mult.commute)
    with "1.IH" [of k'] False "1.prems" k' have "length (toStringRadix r (n div r)) \<le> k'"
      by simp
    then show ?thesis
      using False "1.prems" k' by (subst toStringRadix.simps) simp
  qed
qed

lemma length_padStart: "length (padStart n c s) = max n (length s)"
  by (simp add: padStart_def)

lemma length_encode [simp]: "length (encode s) = length s"
  by (simp add: encode_def)

lemma setBytes_length: "setBytes t s off = Inr t' \<Longrightarrow> length t' = length t"
  by (auto simp: setBytes_def split: if_splits)

lemma setBytes_at: "setBytes t s off = Inr t' \<Longrightarrow> take (length s) (drop off t') = s"
  by (auto simp: setBytes_def split: if_splits)

lemma setBytes_field:
  "setBytes t s off = Inr t' \<Longrightarrow> length s = n \<Longrightarrow> take n (drop off t') = s"
  by (auto simp: setBytes_def split: if_splits)

lemma setBytes_keep:
  "setBytes t s off = Inr t' \<Longrightarrow> p + n \<le> off \<or> off + length s \<le> p \<Longrightarrow>
   take n (drop p t') = take n (drop p t)"
  by (auto simp: setBytes_def drop_take min_def split: if_splits)

lemma update_keep:
  "i < p \<or> p + n \<le> i \<Longrightarrow> take n (drop p (t[i := x])) = take n (drop p t)"
  by (auto simp: drop_update_swap take_update_cancel)

lemma foldl_nth_sum:
  "n \<le> length h \<Longrightarrow>
   foldl (\<lambda>s i. s + f (h ! i)) a [0..<n] = a + sum_list (map f (take n h))"
proof (induction n)
  case 0
  show ?case by simp
next
  case (Suc n)
  then show ?case by (simp add: take_Suc_conv_app_nth add.assoc)
qed

lemma checksumLoop_sum: "length h = 512 \<Longrightarrow> checksumLoop h = sum_list (map unat h)"
  unfolding checksumLoop_def by (subst foldl_nth_sum) simp_all

lemma sum_bytes_le: "sum_list (map unat (h :: byte list)) \<le> 255 * length h"
proof (induction h)
  case Nil
  show ?case by simp
next
  case (Cons b h)
  have "unat b \<le> 255"
    using unsigned_less [of b, where ?'a = nat] by simp
  with Cons show ?case by simp
qed


lemma setBytes_Inr:
  "off + length s \<le> length t \<Longrightarrow> \<exists>t'. setBytes t s off = Inr t' \<and> length t' = length t"
  by (simp add: setBytes_def)

lemma createTarHeaderE:
  assumes "createTarHeader now fileName fileSize = Inr h"
  obtains h1 h2 h3 h4 h5 h6 h7 h9 h10 where
    "setBytes (replicate 512 0) (take 100 (encode fileName)) 0 = Inr h1"
    "setBytes h1 (encode (''0000644'' @ [CHR 0x00])) 100 = Inr h2"
    "setBytes h2 (encode (''0001000'' @ [CHR 0x00])) 108 = Inr h3"
    "setBytes h3 (encode (''0001000'' @ [CHR 0x00])) 116 = Inr h4"
    "setBytes h4 (encode (padStart 11 CHR ''0'' (toStringRadix 8 fileSize) @ [CHR 0x00])) 124 = Inr h5"
    "setBytes h5 (encode (padStart 11 CHR ''0'' (toStringRadix 8 (now div 1000)) @ [CHR 0x00])) 136 = Inr h6"
    "setBytes h6 (encode ''        '') 148 = Inr h7"
    "setBytes (h7[156 := 0x30]) (encode (''ustar'' @ [CHR 0x00])) 257 = Inr h9"
    "setBytes h9 (encode ''00'') 263 = Inr h10"
    "setBytes h10 (encode (padStart 6 CHR ''0'' (toStringRadix 8 (checksumLoop h10)) @ [CHR 0x00, CHR '' ''])) 148 = Inr h"
  using assms unfolding createTarHeader_def andThen_def Let_def
  by (auto split: sum.splits)

lemma checksum_digits:
  assumes "length h = 512"
  shows "length (padStart 6 CHR ''0'' (toStringRadix 8 (checksumLoop h)) @ [CHR 0x00, CHR '' '']) = 8"
proof -
  have "checksumLoop h \<le> 255 * 512"
    using sum_bytes_le [of h] assms by (simp add: checksumLoop_sum)
  then have "checksumLoop h < 8 ^ 6" by simp
  then have "length (toStringRadix 8 (checksumLoop h)) \<le> 6"
    by (intro length_toStringRadix) simp_all
  then show ?thesis by (simp add: length_padStart)
qed

lemma createTarHeader_total:
  assumes size: "length (toStringRadix 8 fileSize) \<le> 18"
    and time: "length (toStringRadix 8 (now div 1000)) \<le> 18"
  shows "\<exists>h. createTarHeader now fileName fileSize = Inr h"
proof -
  have "0 + length (take 100 (encode fileName)) \<le> length (replicate 512 (0 :: byte))"
    by simp
  from setBytes_Inr [OF this]
  obtain h1 where e1: "setBytes (replicate 512 0) (take 100 (encode fileName)) 0 = Inr h1"
    and l1: "length h1 = 512"
    by auto
  obtain h2 where e2: "setBytes h1 (encode (''0000644'' @ [CHR 0x00])) 100 = Inr h2"
    and l2: "length h2 = 512"
    using setBytes_Inr [of 100 "encode (''0000644'' @ [CHR 0x00])" h1] l1 by auto
  obtain h3 where e3: "setBytes h2 (encode (''0001000'' @ [CHR 0x00])) 108 = Inr h3"
    and l3: "length h3 = 512"
    using setBytes_Inr [of 108 "encode (''0001000'' @ [CHR 0x00])" h2] l2 by auto
  obtain h4 where e4: "setBytes h3 (encode (''0001000'' @ [CHR 0x00])) 116 = Inr h4"
    and l4: "length h4 = 512"
    using setBytes_Inr [of 116 "encode (''0001000'' @ [CHR 0x00])" h3] l3 by auto
  obtain h5 where e5: "setBytes h4 (encode (padStart 11 CHR ''0'' (toStringRadix 8 fileSize) @ [CHR 0x00])) 124 = Inr h5"
    and l5: "length h5 = 512"
    using setBytes_Inr [of 124 "encode (padStart 11 CHR ''0'' (toStringRadix 8 fileSize) @ [CHR 0x00])" h4]
      l4 size by (auto simp: length_padStart)
  obtain h6 where e6: "setBytes h5 (encode (padStart 11 CHR ''0'' (toStringRadix 8 (now div 1000)) @ [CHR 0x00])) 136 = Inr h6"
    and l6: "length h6 = 512"
    using setBytes_Inr [of 136 "encode (padStart 11 CHR ''0'' (toStringRadix 8 (now div 1000)) @ [CHR 0x00])" h5]
      l5 time by (auto simp: length_padStart)
  obtain h7 where e7: "setBytes h6 (encode ''        '') 148 = Inr h7"
    and l7: "length h7 = 512"
    using setBytes_Inr [of 148 "encode ''        ''" h6] l6 by auto
  obtain h9 where e9: "setBytes (h7[156 := 0x30]) (encode (''ustar'' @ [CHR 0x00])) 257 = Inr h9"
    and l9: "length h9 = 512"
    using setBytes_Inr [of 257 "encode (''ustar'' @ [CHR 0x00])" "h7[156 := 0x30]"] l7 by auto
  obtain h10 where e10: "setBytes h9 (encode ''00'') 263 = Inr h10"
    and l10: "length h10 = 512"
    using setBytes_Inr [of 263 "encode ''00''" h9] l9 by auto
  obtain h where e: "setBytes h10 (encode (padStart 6 CHR ''0'' (toStringRadix 8 (checksumLoop h10)) @ [CHR 0x00, CHR '' ''])) 148 = Inr h"
    using setBytes_Inr [of 148 "encode (padStart 6 CHR ''0'' (toStringRadix 8 (checksumLoop h10)) @ [CHR 0x00, CHR '' ''])" h10]
      l10 checksum_digits [OF l10] by auto
  have "createTarHeader now fileName fileSize = Inr h"
    unfolding createTarHeader_def andThen_def Let_def
    by (simp only: e1 e2 e3 e4 e5 e6 e7 e9 e10 e sum.case)
  then show ?thesis ..
qed


lemma digits_2_53: "n < 2 ^ 53 \<Longrightarrow> length (toStringRadix 8 n) \<le> 18"
proof -
  assume "n < 2 ^ 53"
  then have "n < 8 ^ 18" by simp
  then show ?thesis by (intro length_toStringRadix) simp_all
qed

lemma createTarHeader_length:
  assumes "createTarHeader now fileName fileSize = Inr h"
  shows "length h = 512"
  using assms
  by (elim createTarHeaderE) (auto dest!: setBytes_length)

lemma createTarHeader_name_field:
  assumes "createTarHeader now fileName fileSize = Inr h"
  shows "take 100 h = take 100 (encode fileName) @ replicate (100 - length (encode fileName)) 0"
proof -
  from assms obtain h1 h2 h3 h4 h5 h6 h7 h9 h10 where
    e1: "setBytes (replicate 512 0) (take 100 (encode fileName)) 0 = Inr h1" and
    e2: "setBytes h1 (encode (''0000644'' @ [CHR 0x00])) 100 = Inr h2" and
    e3: "setBytes h2 (encode (''0001000'' @ [CHR 0x00])) 108 = Inr h3" and
    e4: "setBytes h3 (encode (''0001000'' @ [CHR 0x00])) 116 = Inr h4" and
    e5: "setBytes h4 (encode (padStart 11 CHR ''0'' (toStringRadix 8 fileSize) @ [CHR 0x00])) 124 = Inr h5" and
    e6: "setBytes h5 (encode (padStart 11 CHR ''0'' (toStringRadix 8 (now div 1000)) @ [CHR 0x00])) 136 = Inr h6" and
    e7: "setBytes h6 (encode ''        '') 148 = Inr h7" and
    e9: "setBytes (h7[156 := 0x30]) (encode (''ustar'' @ [CHR 0x00])) 257 = Inr h9" and
    e10: "setBytes h9 (encode ''00'') 263 = Inr h10" and
    e: "setBytes h10 (encode (padStart 6 CHR ''0'' (toStringRadix 8 (checksumLoop h10)) @ [CHR 0x00, CHR '' ''])) 148 = Inr h"
    by (rule createTarHeaderE)
  have "take 100 h = take 100 h10" using setBytes_keep [OF e, of 0 100] by simp
  also have "\<dots> = take 100 h9" using setBytes_keep [OF e10, of 0 100] by simp
  also have "\<dots> = take 100 (h7[156 := 0x30])" using setBytes_keep [OF e9, of 0 100] by simp
  also have "\<dots> = take 100 h7" by simp
  also have "\<dots> = take 100 h6" using setBytes_keep [OF e7, of 0 100] by simp
  also have "\<dots> = take 100 h5" using setBytes_keep [OF e6, of 0 100] by simp
  also have "\<dots> = take 100 h4" using setBytes_keep [OF e5, of 0 100] by simp
  also have "\<dots> = take 100 h3" using setBytes_keep [OF e4, of 0 100] by simp
  also have "\<dots> = take 100 h2" using setBytes_keep [OF e3, of 0 100] by simp
  also have "\<dots> = take 100 h1" using setBytes_keep [OF e2, of 0 100] by simp
  finally have "take 100 h = take 100 h1" .
  moreover have "h1 = take 100 (encode fileName) @ drop (length (take 100 (encode fileName))) (replicate 512 0)"
    using e1 by (simp add: setBytes_def split: if_splits)
  ultimately show ?thesis
    by (cases "length fileName \<le> 100") (simp_all add: min_def)
qed

lemma createTarHeader_checksum_field:
  assumes "createTarHeader now fileName fileSize = Inr h"
  shows "take 8 (drop 148 h) =
         encode (padStart 6 CHR ''0''
           (toStringRadix 8 (sum_list (map unat (take 148 h @ encode ''        '' @ drop 156 h)))) @
           [CHR 0x00, CHR '' ''])"
proof -
  from assms obtain h1 h2 h3 h4 h5 h6 h7 h9 h10 where
    e1: "setBytes (replicate 512 0) (take 100 (encode fileName)) 0 = Inr h1" and
    e2: "setBytes h1 (encode (''0000644'' @ [CHR 0x00])) 100 = Inr h2" and
    e3: "setBytes h2 (encode (''0001000'' @ [CHR 0x00])) 108 = Inr h3" and
    e4: "setBytes h3 (encode (''0001000'' @ [CHR 0x00])) 116 = Inr h4" and
    e5: "setBytes h4 (encode (padStart 11 CHR ''0'' (toStringRadix 8 fileSize) @ [CHR 0x00])) 124 = Inr h5" and
    e6: "setBytes h5 (encode (padStart 11 CHR ''0'' (toStringRadix 8 (now div 1000)) @ [CHR 0x00])) 136 = Inr h6" and
    e7: "setBytes h6 (encode ''        '') 148 = Inr h7" and
    e9: "setBytes (h7[156 := 0x30]) (encode (''ustar'' @ [CHR 0x00])) 257 = Inr h9" and
    e10: "setBytes h9 (encode ''00'') 263 = Inr h10" and
    e: "setBytes h10 (encode (padStart 6 CHR ''0'' (toStringRadix 8 (checksumLoop h10)) @ [CHR 0x00, CHR '' ''])) 148 = Inr h"
    by (rule createTarHeaderE)
  let ?chk = "encode (padStart 6 CHR ''0'' (toStringRadix 8 (checksumLoop h10)) @ [CHR 0x00, CHR '' ''])"
  have l7: "length h7 = 512"
    using e1 e2 e3 e4 e5 e6 e7 by (auto dest!: setBytes_length)
  have l10: "length h10 = 512"
    using e9 e10 l7 by (auto dest!: setBytes_length)
  have lchk: "length ?chk = 8"
    using checksum_digits [OF l10] by simp
  have "take 8 (drop 148 h7) = encode ''        ''"
    by (rule setBytes_field [OF e7]) simp
  then have "take 8 (drop 148 (h7[156 := 0x30])) = encode ''        ''"
    by (simp add: update_keep)
  then have "take 8 (drop 148 h9) = encode ''        ''"
    using setBytes_keep [OF e9, of 148 8] by simp
  then have spaces: "take 8 (drop 148 h10) = encode ''        ''"
    using setBytes_keep [OF e10, of 148 8] by simp
  have h: "h = take 148 h10 @ ?chk @ drop 156 h10"
    using e lchk by (auto simp: setBytes_def split: if_splits)
  have "take 148 h @ encode ''        '' @ drop 156 h = take 148 h10 @ take 8 (drop 148 h10) @ drop 156 h10"
    using l10 lchk by (simp add: h spaces)
  also have "\<dots> = take 148 h10 @ drop 148 h10"
    using append_take_drop_id [of 8 "drop 148 h10"] by simp
  also have "\<dots> = h10" by simp
  finally have before: "take 148 h @ encode ''        '' @ drop 156 h = h10" .
  have "take 8 (drop 148 h) = ?chk"
    using l10 lchk by (simp add: h)
  then show ?thesis
    by (simp add: before checksumLoop_sum [OF l10])
qed


lemma setBytes_zeros:
  "length a = off \<Longrightarrow> length s \<le> n \<Longrightarrow>
   setBytes (a @ replicate n 0) s off = Inr (a @ s @ replicate (n - length s) 0)"
  by (simp add: setBytes_def)

lemma setBytes_replace:
  "length a = off \<Longrightarrow> length x = length s \<Longrightarrow> setBytes (a @ x @ b) s off = Inr (a @ s @ b)"
  by (simp add: setBytes_def)

text \<open>The header in closed form, when the size and the time have at most 11 octal digits.\<close>

lemma createTarHeader_closed_form:
  fixes fileName :: string and fileSize now :: nat
  assumes size: "length (toStringRadix 8 fileSize) \<le> 11"
    and time: "length (toStringRadix 8 (now div 1000)) \<le> 11"
  defines "name \<equiv> take 100 (encode fileName) @ replicate (100 - length (encode fileName)) 0"
    and "numbers \<equiv> encode (''0000644'' @ [CHR 0x00]) @ encode (''0001000'' @ [CHR 0x00]) @
           encode (''0001000'' @ [CHR 0x00]) @
           encode (padStart 11 CHR ''0'' (toStringRadix 8 fileSize) @ [CHR 0x00]) @
           encode (padStart 11 CHR ''0'' (toStringRadix 8 (now div 1000)) @ [CHR 0x00])"
    and "tail \<equiv> [0x30] @ replicate 100 0 @ encode (''ustar'' @ [CHR 0x00]) @ encode ''00'' @
           replicate 247 (0 :: byte)"
  shows "createTarHeader now fileName fileSize =
         Inr (name @ numbers @
              encode (padStart 6 CHR ''0''
                (toStringRadix 8 (sum_list (map unat (name @ numbers @ encode ''        '' @ tail)))) @
                [CHR 0x00, CHR '' '']) @
              tail)"
proof -
  let ?size = "encode (padStart 11 CHR ''0'' (toStringRadix 8 fileSize) @ [CHR 0x00])"
  let ?mtime = "encode (padStart 11 CHR ''0'' (toStringRadix 8 (now div 1000)) @ [CHR 0x00])"
  let ?mode = "encode (''0000644'' @ [CHR 0x00])"
  let ?id = "encode (''0001000'' @ [CHR 0x00])"
  have lname: "length name = 100"
    by (simp add: name_def min_def)
  have lsize: "length ?size = 12"
    using size by (simp add: length_padStart)
  have lmtime: "length ?mtime = 12"
    using time by (simp add: length_padStart)
  have e1: "setBytes (replicate 512 0) (take 100 (encode fileName)) 0 = Inr (name @ replicate 412 0)"
  proof -
    have "setBytes ([] @ replicate 512 0) (take 100 (encode fileName)) 0 =
          Inr ([] @ take 100 (encode fileName) @ replicate (512 - length (take 100 (encode fileName))) 0)"
      by (rule setBytes_zeros) simp_all
    moreover have "replicate (512 - length (take 100 (encode fileName))) (0 :: byte) =
          replicate (100 - length (encode fileName)) 0 @ replicate 412 0"
      by (cases "length fileName \<le> 100") (simp_all add: min_def flip: replicate_add)
    ultimately show ?thesis by (simp add: name_def)
  qed
  have e2: "setBytes (name @ replicate 412 0) ?mode 100 = Inr (name @ ?mode @ replicate 404 0)"
    using setBytes_zeros [of name 100 ?mode 412] lname by simp
  have e3: "setBytes (name @ ?mode @ replicate 404 0) ?id 108 = Inr (name @ ?mode @ ?id @ replicate 396 0)"
    using setBytes_zeros [of "name @ ?mode" 108 ?id 404] lname by simp
  have e4: "setBytes (name @ ?mode @ ?id @ replicate 396 0) ?id 116 =
            Inr (name @ ?mode @ ?id @ ?id @ replicate 388 0)"
    using setBytes_zeros [of "name @ ?mode @ ?id" 116 ?id 396] lname by simp
  have e5: "setBytes (name @ ?mode @ ?id @ ?id @ replicate 388 0) ?size 124 =
            Inr (name @ ?mode @ ?id @ ?id @ ?size @ replicate 376 0)"
    using setBytes_zeros [of "name @ ?mode @ ?id @ ?id" 124 ?size 388] lname lsize by simp
  have e6: "setBytes (name @ ?mode @ ?id @ ?id @ ?size @ replicate 376 0) ?mtime 136 =
            Inr (name @ numbers @ replicate 364 0)"
    using setBytes_zeros [of "name @ ?mode @ ?id @ ?id @ ?size" 136 ?mtime 376] lname lsize lmtime
    by (simp add: numbers_def)
  have lnumbers: "length numbers = 48"
    using lsize lmtime by (simp add: numbers_def)
  have e7: "setBytes (name @ numbers @ replicate 364 0) (encode ''        '') 148 =
            Inr (name @ numbers @ encode ''        '' @ replicate 356 0)"
    using setBytes_zeros [of "name @ numbers" 148 "encode ''        ''" 364] lname lnumbers by simp
  have e8: "(name @ numbers @ encode ''        '' @ replicate 356 0)[156 := 0x30] =
            name @ numbers @ encode ''        '' @ [0x30] @ replicate 355 0"
  proof -
    have "replicate 356 (0 :: byte) = 0 # replicate 355 0"
      by (simp flip: replicate_Suc)
    then show ?thesis
      using lname lnumbers by (simp add: list_update_append)
  qed
  have e9: "setBytes (name @ numbers @ encode ''        '' @ [0x30] @ replicate 355 0)
              (encode (''ustar'' @ [CHR 0x00])) 257 =
            Inr (name @ numbers @ encode ''        '' @ [0x30] @ replicate 100 0 @
                 encode (''ustar'' @ [CHR 0x00]) @ replicate 249 0)"
  proof -
    have split: "replicate 355 (0 :: byte) = replicate 100 0 @ replicate 255 0"
      by (simp flip: replicate_add)
    show ?thesis
      using setBytes_zeros [of "name @ numbers @ encode ''        '' @ [0x30] @ replicate 100 0" 257
          "encode (''ustar'' @ [CHR 0x00])" 255] lname lnumbers
      by (simp add: split)
  qed
  have e10: "setBytes (name @ numbers @ encode ''        '' @ [0x30] @ replicate 100 0 @
                 encode (''ustar'' @ [CHR 0x00]) @ replicate 249 0) (encode ''00'') 263 =
             Inr (name @ numbers @ encode ''        '' @ tail)"
    using setBytes_zeros [of "name @ numbers @ encode ''        '' @ [0x30] @ replicate 100 0 @
        encode (''ustar'' @ [CHR 0x00])" 263 "encode ''00''" 249] lname lnumbers
    by (simp add: tail_def)
  let ?h10 = "name @ numbers @ encode ''        '' @ tail"
  have l10: "length ?h10 = 512"
    using lname lnumbers by (simp add: tail_def)
  let ?chk = "encode (padStart 6 CHR ''0'' (toStringRadix 8 (checksumLoop ?h10)) @ [CHR 0x00, CHR '' ''])"
  have lchk: "length ?chk = 8"
    using checksum_digits [OF l10] by simp
  have e: "setBytes ?h10 ?chk 148 = Inr (name @ numbers @ ?chk @ tail)"
    using setBytes_replace [of "name @ numbers" 148 "encode ''        ''" ?chk tail] lname lnumbers lchk
    by simp
  have "createTarHeader now fileName fileSize = Inr (name @ numbers @ ?chk @ tail)"
    unfolding createTarHeader_def andThen_def Let_def
    by (simp only: e1 e2 e3 e4 e5 e6 e7 e8 e9 e10 e sum.case)
  then show ?thesis
    by (simp only: checksumLoop_sum [OF l10])
qed


lemma toStringRadix_0 [simp]: "toStringRadix 8 0 = ''0''"
  by (simp add: toStringRadix.simps digitChar_def char_of_def bit_0)

lemma sample_header:
  "createTarHeader 0 ''a'' 0 =
   Inr (encode ''a'' @ replicate 99 0 @
        encode (''0000644'' @ [CHR 0x00]) @ encode (''0001000'' @ [CHR 0x00]) @
        encode (''0001000'' @ [CHR 0x00]) @
        encode (replicate 11 CHR ''0'' @ [CHR 0x00]) @ encode (replicate 11 CHR ''0'' @ [CHR 0x00]) @
        encode (''006100'' @ [CHR 0x00, CHR '' '']) @
        [0x30] @ replicate 100 0 @ encode (''ustar'' @ [CHR 0x00]) @ encode ''00'' @ replicate 247 0)"
proof -
  have size: "padStart 11 CHR ''0'' (toStringRadix 8 0) = replicate 11 CHR ''0''"
    unfolding toStringRadix_0 by (simp add: padStart_def eval_nat_numeral)
  have sum: "sum_list (map unat
      ((take 100 (encode ''a'') @ replicate (100 - length (encode ''a'')) 0) @
       (encode (''0000644'' @ [CHR 0x00]) @ encode (''0001000'' @ [CHR 0x00]) @
        encode (''0001000'' @ [CHR 0x00]) @
        encode (replicate 11 CHR ''0'' @ [CHR 0x00]) @
        encode (replicate 11 CHR ''0'' @ [CHR 0x00])) @
       encode ''        '' @
       ([0x30] @ replicate 100 0 @ encode (''ustar'' @ [CHR 0x00]) @ encode ''00'' @
        replicate 247 (0 :: byte)))) = 3136"
    by (simp add: encode_def sum_list_replicate)
  have digits: "toStringRadix 8 3136 = ''6100''"
    by (simp add: toStringRadix.simps digitChar_def char_of_def bit_0)
  have oct: "padStart 6 CHR ''0'' (toStringRadix 8 3136) = ''006100''"
    unfolding digits by (simp add: padStart_def numeral_2_eq_2)
  have "createTarHeader 0 ''a'' 0 = Inr
     ((take 100 (encode ''a'') @ replicate (100 - length (encode ''a'')) 0) @
      (encode (''0000644'' @ [CHR 0x00]) @ encode (''0001000'' @ [CHR 0x00]) @
        encode (''0001000'' @ [CHR 0x00]) @
        encode (replicate 11 CHR ''0'' @ [CHR 0x00]) @
        encode (replicate 11 CHR ''0'' @ [CHR 0x00])) @
      encode (''006100'' @ [CHR 0x00, CHR '' '']) @
      ([0x30] @ replicate 100 0 @ encode (''ustar'' @ [CHR 0x00]) @ encode ''00'' @
        replicate 247 (0 :: byte)))"
    using createTarHeader_closed_form [where fileSize = 0 and now = 0 and fileName = "''a''"]
    unfolding div_0 size sum oct by simp
  then show ?thesis
    by simp
qed


lemma createTarHeader_prefix_field:
  assumes "createTarHeader now fileName fileSize = Inr h"
    and size: "length (toStringRadix 8 fileSize) \<le> 18"
    and time: "length (toStringRadix 8 (now div 1000)) \<le> 18"
  shows "take 155 (drop 345 h) = replicate 155 0"
proof -
  from assms(1) obtain h1 h2 h3 h4 h5 h6 h7 h9 h10 where
    e1: "setBytes (replicate 512 0) (take 100 (encode fileName)) 0 = Inr h1" and
    e2: "setBytes h1 (encode (''0000644'' @ [CHR 0x00])) 100 = Inr h2" and
    e3: "setBytes h2 (encode (''0001000'' @ [CHR 0x00])) 108 = Inr h3" and
    e4: "setBytes h3 (encode (''0001000'' @ [CHR 0x00])) 116 = Inr h4" and
    e5: "setBytes h4 (encode (padStart 11 CHR ''0'' (toStringRadix 8 fileSize) @ [CHR 0x00])) 124 = Inr h5" and
    e6: "setBytes h5 (encode (padStart 11 CHR ''0'' (toStringRadix 8 (now div 1000)) @ [CHR 0x00])) 136 = Inr h6" and
    e7: "setBytes h6 (encode ''        '') 148 = Inr h7" and
    e9: "setBytes (h7[156 := 0x30]) (encode (''ustar'' @ [CHR 0x00])) 257 = Inr h9" and
    e10: "setBytes h9 (encode ''00'') 263 = Inr h10" and
    e: "setBytes h10 (encode (padStart 6 CHR ''0'' (toStringRadix 8 (checksumLoop h10)) @ [CHR 0x00, CHR '' ''])) 148 = Inr h"
    by (rule createTarHeaderE)
  have l10: "length h10 = 512"
    using e1 e2 e3 e4 e5 e6 e7 e9 e10 by (auto dest!: setBytes_length)
  have "take 155 (drop 345 h) = take 155 (drop 345 h10)"
    using setBytes_keep [OF e, of 345 155] checksum_digits [OF l10] by simp
  also have "\<dots> = take 155 (drop 345 h9)" using setBytes_keep [OF e10, of 345 155] by simp
  also have "\<dots> = take 155 (drop 345 (h7[156 := 0x30]))" using setBytes_keep [OF e9, of 345 155] by simp
  also have "\<dots> = take 155 (drop 345 h7)" by (simp add: update_keep)
  also have "\<dots> = take 155 (drop 345 h6)" using setBytes_keep [OF e7, of 345 155] by simp
  also have "\<dots> = take 155 (drop 345 h5)"
    using setBytes_keep [OF e6, of 345 155] time by (simp add: length_padStart)
  also have "\<dots> = take 155 (drop 345 h4)"
    using setBytes_keep [OF e5, of 345 155] size by (simp add: length_padStart)
  also have "\<dots> = take 155 (drop 345 h3)" using setBytes_keep [OF e4, of 345 155] by simp
  also have "\<dots> = take 155 (drop 345 h2)" using setBytes_keep [OF e3, of 345 155] by simp
  also have "\<dots> = take 155 (drop 345 h1)" using setBytes_keep [OF e2, of 345 155] by simp
  also have "\<dots> = take 155 (drop 345 (replicate 512 0))"
    using setBytes_keep [OF e1, of 345 155] by simp
  also have "\<dots> = replicate 155 0" by simp
  finally show ?thesis .
qed

text \<open>
  Claim C4, as amended. For every file name, and every size and clock value below \<open>2\<^sup>5\<^sup>3\<close>,
  \<^verbatim>\<open>createTarHeader\<close> returns a header of 512 bytes whose checksum field (the 8 bytes at
  offset 148) holds, as six zero-padded octal digits followed by a NUL and a space, the sum
  of the 512 header bytes taken with the checksum field filled with spaces. The sum is
  computed once, after every other field has been written.
\<close>

theorem tar_checksum_over_space_filled_field:
  assumes "fileSize < 2 ^ 53" and "now < 2 ^ 53"
  shows "\<exists>header. createTarHeader now fileName fileSize = Inr header \<and> length header = 512 \<and>
           take 8 (drop 148 header) =
           encode (padStart 6 CHR ''0''
             (toStringRadix 8
               (sum_list (map unat (take 148 header @ encode ''        '' @ drop 156 header)))) @
             [CHR 0x00, CHR '' ''])"
proof -
  have "now div 1000 < 2 ^ 53"
    using assms(2) by (simp add: div_le_dividend [THEN le_less_trans])
  then obtain header where "createTarHeader now fileName fileSize = Inr header"
    using createTarHeader_total [of fileSize now fileName] digits_2_53 assms(1) by blast
  then show ?thesis
    using createTarHeader_length createTarHeader_checksum_field by blast
qed

theorem tar_checksum_over_space_filled_field_witness:
  "\<exists>header. createTarHeader 1730000000000 ''src/index.html'' 513 = Inr header \<and> length header = 512 \<and>
           take 8 (drop 148 header) =
           encode (padStart 6 CHR ''0''
             (toStringRadix 8
               (sum_list (map unat (take 148 header @ encode ''        '' @ drop 156 header)))) @
             [CHR 0x00, CHR '' ''])"
  using tar_checksum_over_space_filled_field [of 513 1730000000000 "''src/index.html''"]
  by simp

text \<open>
  The claim as stated has the checksum field filled with zeros while the bytes are summed.
  For the file name \<^verbatim>\<open>a\<close> of size 0 at clock value 0 the field holds \<^verbatim>\<open>006100\<close>, and
  the sum over the zero-filled header is \<^verbatim>\<open>005500\<close> in octal.
\<close>

theorem tar_checksum_zero_filled_counterexample:
  "\<not> isl (createTarHeader 0 ''a'' 0) \<and>
   take 8 (drop 148 (projr (createTarHeader 0 ''a'' 0))) = encode (''006100'' @ [CHR 0x00, CHR '' '']) \<and>
   encode (padStart 6 CHR ''0''
     (toStringRadix 8
       (sum_list (map unat (take 148 (projr (createTarHeader 0 ''a'' 0)) @ replicate 8 0 @
                            drop 156 (projr (createTarHeader 0 ''a'' 0)))))) @
     [CHR 0x00, CHR '' '']) = encode (''005500'' @ [CHR 0x00, CHR '' '']) \<and>
   encode (''006100'' @ [CHR 0x00, CHR '' '']) \<noteq> encode (''005500'' @ [CHR 0x00, CHR '' ''])"
proof -
  have sum: "sum_list (map unat (take 148 (projr (createTarHeader 0 ''a'' 0)) @ replicate 8 0 @
                            drop 156 (projr (createTarHeader 0 ''a'' 0)))) = 2880"
    unfolding sample_header by (simp add: encode_def sum_list_replicate)
  have digits: "toStringRadix 8 2880 = ''5500''"
    by (simp add: toStringRadix.simps digitChar_def char_of_def bit_0)
  have field: "take 8 (drop 148 (projr (createTarHeader 0 ''a'' 0))) =
      encode (''006100'' @ [CHR 0x00, CHR '' ''])"
    unfolding sample_header by simp
  have differ: "encode (''006100'' @ [CHR 0x00, CHR '' '']) \<noteq> encode (''005500'' @ [CHR 0x00, CHR '' ''])"
    by (simp add: encode_def)
  show ?thesis
    unfolding sum digits using field differ
    by (simp add: sample_header padStart_def numeral_2_eq_2)
qed

text \<open>
  Claim C10. For every size and clock value below \<open>2\<^sup>5\<^sup>3\<close>, the name field (the first 100
  bytes of the header) of a file name of more than 100 bytes holds the first 100 bytes of
  the name, so that the path read back from it (the field up to its first NUL) is not the
  name; a name of at most 100 bytes is stored in full, padded with zeros. The prefix field
  (155 bytes at offset 345) is zero in every header.
\<close>

theorem tar_name_cut_at_100_bytes:
  assumes "fileSize < 2 ^ 53" and "now < 2 ^ 53"
  shows "\<exists>header. createTarHeader now fileName fileSize = Inr header \<and>
           (100 < length (encode fileName) \<longrightarrow>
              take 100 header = take 100 (encode fileName) \<and>
              takeWhile (\<lambda>b. b \<noteq> 0) (take 100 header) \<noteq> encode fileName) \<and>
           (length (encode fileName) \<le> 100 \<longrightarrow>
              take 100 header = encode fileName @ replicate (100 - length (encode fileName)) 0) \<and>
           take 155 (drop 345 header) = replicate 155 0"
proof -
  have secs: "now div 1000 < 2 ^ 53"
    using assms(2) by (simp add: div_le_dividend [THEN le_less_trans])
  then obtain header where h: "createTarHeader now fileName fileSize = Inr header"
    using createTarHeader_total [of fileSize now fileName] digits_2_53 assms(1) by blast
  have name: "take 100 header = take 100 (encode fileName) @ replicate (100 - length (encode fileName)) 0"
    by (rule createTarHeader_name_field [OF h])
  have "takeWhile (\<lambda>b. b \<noteq> 0) (take 100 header) \<noteq> encode fileName"
    if "100 < length (encode fileName)"
  proof -
    have "length (takeWhile (\<lambda>b. b \<noteq> 0) (take 100 header)) \<le> length (take 100 header)"
      by (rule length_takeWhile_le)
    also have "\<dots> \<le> 100" by simp
    finally show ?thesis using that by auto
  qed
  moreover have "take 155 (drop 345 header) = replicate 155 0"
    using createTarHeader_prefix_field [OF h] digits_2_53 assms(1) secs by blast
  ultimately show ?thesis
    using h name by auto
qed

theorem tar_name_cut_at_100_bytes_witness:
  "\<exists>header. createTarHeader 1730000000000 (replicate 101 CHR ''a'') 0 = Inr header \<and>
      take 100 header = replicate 100 97 \<and>
      takeWhile (\<lambda>b. b \<noteq> 0) (take 100 header) \<noteq> encode (replicate 101 CHR ''a'') \<and>
      take 155 (drop 345 header) = replicate 155 0"
  using tar_name_cut_at_100_bytes [of 0 1730000000000 "replicate 101 CHR ''a''"]
  by (auto simp: encode_def)

section \<open>Facts about the archive and its reader\<close>

lemma unat_digitChar: "d < 10 \<Longrightarrow> unat (of_char (digitChar d) :: byte) = 48 + d"
proof -
  assume d: "d < 10"
  have "(of_char (digitChar d) :: nat) = 48 + d"
    using d by (simp add: digitChar_def)
  moreover have "(of_char (digitChar d) :: byte) = of_nat (of_char (digitChar d) :: nat)"
    by (rule of_nat_of_char [symmetric])
  ultimately have "(of_char (digitChar d) :: byte) = of_nat (48 + d)"
    by (simp only:)
  then show ?thesis
    using d by (simp del: of_nat_add add: unat_of_nat)
qed

lemma octal_digits:
  "list_all isOctalDigit (encode (toStringRadix 8 n)) \<and>
   foldl (\<lambda>v b. 8 * v + (unat b - 48)) 0 (encode (toStringRadix 8 n)) = n"
proof (induction "8 :: nat" n rule: toStringRadix.induct)
  case (1 n)
  show ?case
  proof (cases "n < 8")
    case True
    then show ?thesis
      by (subst (1 2) toStringRadix.simps) (simp add: encode_def isOctalDigit_def unat_digitChar)
  next
    case False
    have "n mod 8 < 10" by simp
    with False "1.hyps" show ?thesis
      by (subst (1 2) toStringRadix.simps) (simp add: encode_def isOctalDigit_def unat_digitChar)
  qed
qed

lemma toStringRadix_not_Nil: "toStringRadix r n \<noteq> []"
  by (subst toStringRadix.simps) simp

lemma foldl_octal_zeros:
  "foldl (\<lambda>v b. 8 * v + (unat b - 48)) 0 (replicate k (48 :: byte) @ ds) =
   foldl (\<lambda>v b. 8 * v + (unat b - 48)) 0 ds"
  by (induction k) simp_all

lemma octalValue_padded:
  assumes "b = 0 \<or> b = 32"
  shows "octalValue (encode (padStart k CHR ''0'' (toStringRadix 8 n)) @ b # rest) = Some n"
proof -
  let ?ds = "encode (padStart k CHR ''0'' (toStringRadix 8 n))"
  have ds: "?ds = replicate (k - length (toStringRadix 8 n)) 48 @ encode (toStringRadix 8 n)"
    by (simp add: padStart_def encode_def)
  have all: "list_all isOctalDigit ?ds"
    using octal_digits [of n] by (auto simp: ds list_all_iff isOctalDigit_def)
  then have "\<forall>x \<in> set ?ds. x \<noteq> 0 \<and> x \<noteq> 32"
    by (auto simp: list_all_iff isOctalDigit_def)
  then have "takeWhile (\<lambda>b. b \<noteq> 0 \<and> b \<noteq> 32) (?ds @ b # rest) = ?ds"
    using assms by (subst takeWhile_append2) auto
  moreover have "?ds \<noteq> []"
    using toStringRadix_not_Nil [of 8 n] by (simp add: padStart_def encode_def)
  moreover have "foldl (\<lambda>v b. 8 * v + (unat b - 48)) 0 ?ds = n"
    using octal_digits [of n] by (simp only: ds foldl_octal_zeros)
  ultimately show ?thesis
    using all by (simp add: octalValue_def)
qed

lemma stored_blocks:
  fixes n :: nat
  shows "n + (512 - n mod 512) mod 512 = 512 * ((n + 511) div 512)"
proof -
  define q r where "q = n div 512" and "r = n mod 512"
  have n: "n = 512 * q + r" and r: "r < 512"
    by (simp_all add: q_def r_def)
  have split: "(n + 511) div 512 = q + (r + 511) div 512"
    by (simp add: n add.assoc)
  show ?thesis
  proof (cases "r = 0")
    case True
    then show ?thesis
      using split by (simp add: n)
  next
    case False
    then have "(r + 511) div 512 = 1"
      using r by (intro div_nat_eqI) simp_all
    with False r show ?thesis
      using split by (simp add: n)
  qed
qed

lemma cString_zeros: "cString (xs @ replicate k 0) = cString xs"
  by (induction xs) (simp_all add: cString_def takeWhile_replicate)


lemma foldl_total_length:
  "foldl (\<lambda>sum e. sum + length e) a es = a + sum_list (map length es)"
  by (induction es arbitrary: a) simp_all

lemma copyEntries_concat:
  "copyEntries (pre @ replicate (sum_list (map length es)) 0) (length pre) es = Inr (pre @ concat es)"
proof (induction es arbitrary: pre)
  case Nil
  show ?case by simp
next
  case (Cons e es)
  have "setBytes (pre @ replicate (length e + sum_list (map length es)) 0) e (length pre) =
        Inr (pre @ e @ replicate (sum_list (map length es)) 0)"
    by (subst setBytes_zeros) simp_all
  then show ?case
    using Cons.IH [of "pre @ e"] by (simp add: andThen_def)
qed

lemma tarBufferOf_concat:
  "tarBufferOf clock files =
     andThen (pushEntries clock 0 files) (\<lambda>pushed. Inr (concat pushed @ replicate 1024 0))"
proof -
  have "copyEntries (replicate (foldl (\<lambda>sum e. sum + length e) 0 es) 0) 0 es = Inr (concat es)" for es
    using copyEntries_concat [of "[]" es] by (simp add: foldl_total_length)
  then show ?thesis
    by (simp add: tarBufferOf_def Let_def)
qed

lemma pushEntry_concat:
  assumes "createTarHeader now filePath (length (encode content)) = Inr header"
  shows "\<exists>pushed. pushEntry now filePath content = Inr pushed \<and>
           concat pushed = header @ encode content @
             replicate ((512 - length (encode content) mod 512) mod 512) 0"
proof (cases "length content mod 512 = 0")
  case True
  then show ?thesis
    using assms by (simp add: pushEntry_def andThen_def Let_def)
next
  case False
  then have "512 - length content mod 512 < 512" by simp
  then show ?thesis
    using assms by (simp add: pushEntry_def andThen_def Let_def)
qed


lemma digits_8_11: "n < 8 ^ 11 \<Longrightarrow> length (toStringRadix 8 n) \<le> 11"
  by (intro length_toStringRadix) simp_all

text \<open>What the reader finds in a header that \<^verbatim>\<open>createTarHeader\<close> has made.\<close>

lemma header_read_back:
  fixes fileName :: string and fileSize now :: nat
  assumes size: "fileSize < 8 ^ 11" and time: "now div 1000 < 8 ^ 11"
  shows "\<exists>header. createTarHeader now fileName fileSize = Inr header \<and>
           ustarHeaderOk header \<and>
           octalValue (take 12 (drop 124 header)) = Some fileSize \<and>
           ustarPath header = cString (take 100 (encode fileName))"
proof -
  define name where "name = take 100 (encode fileName) @ replicate (100 - length (encode fileName)) 0"
  define ids where "ids = encode (''0000644'' @ [CHR 0x00]) @ encode (''0001000'' @ [CHR 0x00]) @
           encode (''0001000'' @ [CHR 0x00])"
  define sizeField where "sizeField = encode (padStart 11 CHR ''0'' (toStringRadix 8 fileSize) @ [CHR 0x00])"
  define timeField where "timeField = encode (padStart 11 CHR ''0'' (toStringRadix 8 (now div 1000)) @ [CHR 0x00])"
  define tail where "tail = [0x30] @ replicate 100 0 @ encode (''ustar'' @ [CHR 0x00]) @ encode ''00'' @
           replicate 247 (0 :: byte)"
  define total where "total = sum_list (map unat (name @ (ids @ sizeField @ timeField) @ encode ''        '' @ tail))"
  define chk where "chk = encode (padStart 6 CHR ''0'' (toStringRadix 8 total) @ [CHR 0x00, CHR '' ''])"
  define header where "header = name @ (ids @ sizeField @ timeField) @ chk @ tail"
  have made: "createTarHeader now fileName fileSize = Inr header"
    using createTarHeader_closed_form [OF digits_8_11 [OF size] digits_8_11 [OF time], of fileName]
    by (simp add: header_def chk_def total_def tail_def timeField_def sizeField_def ids_def name_def)
  have lname: "length name = 100"
    by (simp add: name_def min_def)
  have lids: "length ids = 24"
    by (simp add: ids_def)
  have lsize: "length sizeField = 12"
    using digits_8_11 [OF size] by (simp add: sizeField_def length_padStart)
  have ltime: "length timeField = 12"
    using digits_8_11 [OF time] by (simp add: timeField_def length_padStart)
  have ltail: "length tail = 356"
    by (simp add: tail_def)
  have total_small: "length (toStringRadix 8 total) \<le> 6"
  proof -
    have "total \<le> 255 * 512"
      using sum_bytes_le [of "name @ (ids @ sizeField @ timeField) @ encode ''        '' @ tail"]
      by (simp add: total_def lname lids lsize ltime ltail)
    then have "total < 8 ^ 6" by simp
    then show ?thesis by (intro length_toStringRadix) simp_all
  qed
  have lchk: "length chk = 8"
    using total_small by (simp add: chk_def length_padStart)
  have len: "length header = 512"
    by (simp add: header_def lname lids lsize ltime lchk ltail)
  have magic: "take 6 (drop 257 header) = encode (''ustar'' @ [CHR 0x00])"
    by (simp add: header_def lname lids lsize ltime lchk) (simp add: tail_def)
  have version: "take 2 (drop 263 header) = encode ''00''"
    by (simp add: header_def lname lids lsize ltime lchk) (simp add: tail_def)
  have flag: "take 1 (drop 156 header) = encode ''0''"
    by (simp add: header_def lname lids lsize ltime lchk) (simp add: tail_def encode_def)
  have chk_field: "take 8 (drop 148 header) = chk"
    by (simp add: header_def lname lids lsize ltime lchk)
  have before: "take 148 header = name @ (ids @ sizeField @ timeField)"
    by (simp add: header_def lname lids lsize ltime)
  have after: "drop 156 header = tail"
    by (simp add: header_def lname lids lsize ltime lchk)
  have "chk = encode (padStart 6 CHR ''0'' (toStringRadix 8 total)) @ 0 # [32]"
    by (simp add: chk_def encode_def)
  then have chk_value: "octalValue chk = Some total"
    using octalValue_padded [of 0 6 total "[32]"] by simp
  have sum_eq: "sum_list (map unat (take 148 header @ encode ''        '' @ drop 156 header)) = total"
    by (simp only: before after total_def append_assoc)
  have ok: "ustarHeaderOk header"
    unfolding ustarHeaderOk_def
    by (simp only: len magic version flag chk_field chk_value sum_eq simp_thms)
  have "take 12 (drop 124 header) = sizeField"
    by (simp add: header_def lname lids lsize)
  moreover have "sizeField = encode (padStart 11 CHR ''0'' (toStringRadix 8 fileSize)) @ 0 # []"
    by (simp add: sizeField_def encode_def)
  ultimately have size_value: "octalValue (take 12 (drop 124 header)) = Some fileSize"
    using octalValue_padded [of 0 11 fileSize "[]"] by simp
  have "take 155 (drop 345 header) = replicate 155 0"
    by (simp add: header_def lname lids lsize ltime lchk) (simp add: tail_def)
  moreover have "take 100 header = name"
    by (simp add: header_def lname)
  ultimately have "ustarPath header = cString (take 100 (encode fileName))"
    using cString_zeros [of "[]" 155] cString_zeros [of "take 100 (encode fileName)"]
    by (simp add: ustarPath_def name_def cString_def)
  with made ok size_value show ?thesis by blast
qed

lemma ustarRead_end: "ustarRead (replicate 1024 0) = Some []"
  by (subst ustarRead.simps) simp

lemma ustarRead_entry:
  assumes ok: "ustarHeaderOk header"
    and size: "octalValue (take 12 (drop 124 header)) = Some (length content)"
    and rest: "1024 \<le> length rest"
  shows "ustarRead (header @ content @ replicate ((512 - length content mod 512) mod 512) 0 @ rest) =
         (case ustarRead rest of None \<Rightarrow> None
          | Some entries \<Rightarrow> Some ((ustarPath header, content) # entries))"
proof -
  let ?pad = "replicate ((512 - length content mod 512) mod 512) (0 :: byte)"
  let ?buf = "header @ content @ ?pad @ rest"
  have len: "length header = 512"
    using ok by (simp add: ustarHeaderOk_def)
  have stored: "length content + length ?pad = 512 * ((length content + 511) div 512)"
    using stored_blocks [of "length content"] by simp
  have "take 1 (drop 156 header) = encode ''0''"
    using ok by (simp add: ustarHeaderOk_def)
  then have "header ! 156 = 48"
    using len by (simp add: take_Suc_conv_app_nth encode_def Cons_nth_drop_Suc [symmetric])
  then have "take 1024 ?buf ! 156 \<noteq> replicate 1024 (0 :: byte) ! 156"
    using len by (simp add: nth_append)
  then have not_end: "take 1024 ?buf \<noteq> replicate 1024 0"
    by metis
  have hd: "take 512 ?buf = header"
    using len by simp
  have long: "\<not> length ?buf < 1024"
    using len rest by simp
  have enough: "\<not> length ?buf < 512 + 512 * ((length content + 511) div 512)"
    using len stored by simp
  have tl: "drop (512 + 512 * ((length content + 511) div 512)) ?buf = rest"
    using len stored by (simp add: drop_append flip: stored)
  have data: "take (length content) (drop 512 ?buf) = content"
    using len by simp
  show ?thesis
    by (subst ustarRead.simps) (simp only: long not_end hd ok size enough tl data if_False not_True_eq_False not_not option.case simp_thms)
qed


lemma pushEntries_layout:
  assumes sizes: "\<forall>(filePath, content) \<in> set files. length (encode content) < 8 ^ 11"
    and clock: "\<forall>k. clock k < 8 ^ 11 * 1000"
  shows "\<exists>headers pushed.
           length headers = length files \<and>
           (\<forall>i < length files.
              createTarHeader (clock (k + i)) (fst (files ! i)) (length (encode (snd (files ! i)))) =
                Inr (headers ! i) \<and>
              ustarHeaderOk (headers ! i) \<and>
              octalValue (take 12 (drop 124 (headers ! i))) = Some (length (encode (snd (files ! i)))) \<and>
              ustarPath (headers ! i) = cString (take 100 (encode (fst (files ! i))))) \<and>
           pushEntries clock k files = Inr pushed \<and>
           concat pushed =
             concat (map2 (\<lambda>header (filePath, content). entryBytes header content) headers files)"
  using sizes
proof (induction files arbitrary: k)
  case Nil
  show ?case by simp
next
  case (Cons item files)
  obtain filePath content where item: "item = (filePath, content)"
    by (cases item)
  have "clock k div 1000 < 8 ^ 11"
    using clock [rule_format, of k] by (simp add: less_mult_imp_div_less)
  moreover have "length (encode content) < 8 ^ 11"
    using Cons.prems item by simp
  ultimately obtain header where
    made: "createTarHeader (clock k) filePath (length (encode content)) = Inr header" and
    ok: "ustarHeaderOk header" and
    size: "octalValue (take 12 (drop 124 header)) = Some (length (encode content))" and
    path: "ustarPath header = cString (take 100 (encode filePath))"
    using header_read_back [of "length (encode content)" "clock k" filePath] by blast
  obtain first where
    first: "pushEntry (clock k) filePath content = Inr first" and
    first_bytes: "concat first = entryBytes header content"
    using pushEntry_concat [OF made] by blast
  from Cons.IH [of "Suc k"] Cons.prems obtain headers pushed where
    len: "length headers = length files" and
    each: "\<forall>i < length files.
              createTarHeader (clock (Suc k + i)) (fst (files ! i)) (length (encode (snd (files ! i)))) =
                Inr (headers ! i) \<and>
              ustarHeaderOk (headers ! i) \<and>
              octalValue (take 12 (drop 124 (headers ! i))) = Some (length (encode (snd (files ! i)))) \<and>
              ustarPath (headers ! i) = cString (take 100 (encode (fst (files ! i))))" and
    more: "pushEntries clock (Suc k) files = Inr pushed" and
    more_bytes: "concat pushed =
             concat (map2 (\<lambda>header (filePath, content). entryBytes header content) headers files)"
    by auto
  have "\<forall>i < length (item # files).
              createTarHeader (clock (k + i)) (fst ((item # files) ! i))
                (length (encode (snd ((item # files) ! i)))) = Inr ((header # headers) ! i) \<and>
              ustarHeaderOk ((header # headers) ! i) \<and>
              octalValue (take 12 (drop 124 ((header # headers) ! i))) =
                Some (length (encode (snd ((item # files) ! i)))) \<and>
              ustarPath ((header # headers) ! i) = cString (take 100 (encode (fst ((item # files) ! i))))"
  proof (intro allI impI)
    fix i
    assume "i < length (item # files)"
    then show "createTarHeader (clock (k + i)) (fst ((item # files) ! i))
                (length (encode (snd ((item # files) ! i)))) = Inr ((header # headers) ! i) \<and>
              ustarHeaderOk ((header # headers) ! i) \<and>
              octalValue (take 12 (drop 124 ((header # headers) ! i))) =
                Some (length (encode (snd ((item # files) ! i)))) \<and>
              ustarPath ((header # headers) ! i) = cString (take 100 (encode (fst ((item # files) ! i))))"
      using made ok size path each item by (cases i) simp_all
  qed
  moreover have "pushEntries clock k (item # files) = Inr (first @ pushed)"
    using first more by (simp add: item andThen_def)
  moreover have "concat (first @ pushed) =
      concat (map2 (\<lambda>header (filePath, content). entryBytes header content) (header # headers) (item # files))"
    using first_bytes more_bytes by (simp add: item)
  moreover have "length (header # headers) = length (item # files)"
    using len by simp
  ultimately show ?case by blast
qed

lemma ustarRead_layout:
  assumes "length headers = length files"
    and "\<forall>i < length files.
           ustarHeaderOk (headers ! i) \<and>
           octalValue (take 12 (drop 124 (headers ! i))) = Some (length (encode (snd (files ! i))))"
    and "1024 \<le> length rest"
  shows "ustarRead (concat (map2 (\<lambda>header (filePath, content). entryBytes header content) headers files) @ rest) =
         (case ustarRead rest of None \<Rightarrow> None
          | Some entries \<Rightarrow>
              Some (map2 (\<lambda>header (filePath, content). (ustarPath header, encode content)) headers files @
                    entries))"
  using assms
proof (induction files arbitrary: headers)
  case Nil
  then show ?case by (simp split: option.splits)
next
  case (Cons item files)
  obtain filePath content where item: "item = (filePath, content)"
    by (cases item)
  from Cons.prems(1) obtain header hs where headers: "headers = header # hs"
    by (cases headers) auto
  have first: "ustarHeaderOk header \<and>
      octalValue (take 12 (drop 124 header)) = Some (length (encode content))"
    using Cons.prems(2) [rule_format, of 0] by (simp add: headers item)
  have others: "\<forall>i < length files.
           ustarHeaderOk (hs ! i) \<and>
           octalValue (take 12 (drop 124 (hs ! i))) = Some (length (encode (snd (files ! i))))"
  proof (intro allI impI)
    fix i
    assume "i < length files"
    then show "ustarHeaderOk (hs ! i) \<and>
           octalValue (take 12 (drop 124 (hs ! i))) = Some (length (encode (snd (files ! i))))"
      using Cons.prems(2) [rule_format, of "Suc i"] by (simp add: headers)
  qed
  let ?more = "concat (map2 (\<lambda>header (filePath, content). entryBytes header content) hs files) @ rest"
  have long: "1024 \<le> length ?more"
    using Cons.prems(3) by simp
  have "ustarRead (entryBytes header content @ ?more) =
        (case ustarRead ?more of None \<Rightarrow> None
         | Some entries \<Rightarrow> Some ((ustarPath header, encode content) # entries))"
    using ustarRead_entry [of header "encode content" ?more] first long by simp
  moreover have "ustarRead ?more =
         (case ustarRead rest of None \<Rightarrow> None
          | Some entries \<Rightarrow>
              Some (map2 (\<lambda>header (filePath, content). (ustarPath header, encode content)) hs files @
                    entries))"
    using Cons.IH [of hs] Cons.prems(1,3) others by (simp add: headers)
  ultimately show ?case
    by (simp add: headers item split: option.splits)
qed


lemma tarBufferOf_read_back:
  assumes sizes: "\<forall>(filePath, content) \<in> set files. length (encode content) < 8 ^ 11"
    and clock: "\<forall>k. clock k < 8 ^ 11 * 1000"
  shows "\<exists>headers.
           length headers = length files \<and>
           (\<forall>i < length files.
              createTarHeader (clock i) (fst (files ! i)) (length (encode (snd (files ! i)))) =
                Inr (headers ! i) \<and>
              length (headers ! i) = 512) \<and>
           tarBufferOf clock files =
             Inr (concat (map2 (\<lambda>header (filePath, content). entryBytes header content) headers files) @
                  replicate 1024 0) \<and>
           ustarRead
             (concat (map2 (\<lambda>header (filePath, content). entryBytes header content) headers files) @
              replicate 1024 0) =
             Some (map (\<lambda>(filePath, content). (cString (take 100 (encode filePath)), encode content)) files)"
proof -
  from pushEntries_layout [OF sizes clock, of 0] obtain headers pushed where
    len: "length headers = length files" and
    each: "\<forall>i < length files.
              createTarHeader (clock (0 + i)) (fst (files ! i)) (length (encode (snd (files ! i)))) =
                Inr (headers ! i) \<and>
              ustarHeaderOk (headers ! i) \<and>
              octalValue (take 12 (drop 124 (headers ! i))) = Some (length (encode (snd (files ! i)))) \<and>
              ustarPath (headers ! i) = cString (take 100 (encode (fst (files ! i))))" and
    pushed: "pushEntries clock 0 files = Inr pushed" and
    bytes: "concat pushed =
             concat (map2 (\<lambda>header (filePath, content). entryBytes header content) headers files)"
    by blast
  have made: "\<forall>i < length files.
              createTarHeader (clock i) (fst (files ! i)) (length (encode (snd (files ! i)))) =
                Inr (headers ! i) \<and>
              length (headers ! i) = 512"
    using each by (auto simp: ustarHeaderOk_def)
  have buffer: "tarBufferOf clock files =
      Inr (concat (map2 (\<lambda>header (filePath, content). entryBytes header content) headers files) @
           replicate 1024 0)"
    by (simp add: tarBufferOf_concat pushed andThen_def bytes)
  have "ustarRead
      (concat (map2 (\<lambda>header (filePath, content). entryBytes header content) headers files) @
       replicate 1024 0) =
      Some (map2 (\<lambda>header (filePath, content). (ustarPath header, encode content)) headers files)"
    using ustarRead_layout [of headers files "replicate 1024 0"] len each
    by (simp add: ustarRead_end)
  moreover have "map2 (\<lambda>header (filePath, content). (ustarPath header, encode content)) headers files =
      map (\<lambda>(filePath, content). (cString (take 100 (encode filePath)), encode content)) files"
    using len each by (auto simp: list_eq_iff_nth_eq split: prod.splits)
  ultimately show ?thesis
    using len made buffer by auto
qed

lemma cString_whole: "0 \<notin> set bs \<Longrightarrow> length bs \<le> 100 \<Longrightarrow> cString (take 100 bs) = bs"
  by (simp add: cString_def takeWhile_eq_all_conv) metis

lemma archive_of_entries:
  assumes "\<forall>(filePath, content) \<in> set files. length (encode content) < 8 ^ 11"
    and "\<forall>k. clock k < 8 ^ 11 * 1000"
  shows "\<exists>headers.
           length headers = length files \<and>
           (\<forall>i < length files.
              createTarHeader (clock i) (fst (files ! i)) (length (encode (snd (files ! i)))) =
                Inr (headers ! i) \<and>
              length (headers ! i) = 512) \<and>
           tarBufferOf clock files =
             Inr (concat (map2 (\<lambda>header (filePath, content). entryBytes header content) headers files) @
                  replicate 1024 0) \<and>
           ustarRead
             (concat (map2 (\<lambda>header (filePath, content). entryBytes header content) headers files) @
              replicate 1024 0) =
             Some (map (\<lambda>(filePath, content). (cString (take 100 (encode filePath)), encode content)) files) \<and>
           ((\<forall>(filePath, content) \<in> set files.
                length (encode filePath) \<le> 100 \<and> 0 \<notin> set (encode filePath)) \<longrightarrow>
            ustarRead
              (concat (map2 (\<lambda>header (filePath, content). entryBytes header content) headers files) @
               replicate 1024 0) =
              Some (map (\<lambda>(filePath, content). (encode filePath, encode content)) files))"
proof -
  from tarBufferOf_read_back [OF assms] obtain headers where
    layout: "length headers = length files"
      "\<forall>i < length files.
              createTarHeader (clock i) (fst (files ! i)) (length (encode (snd (files ! i)))) =
                Inr (headers ! i) \<and>
              length (headers ! i) = 512"
      "tarBufferOf clock files =
             Inr (concat (map2 (\<lambda>header (filePath, content). entryBytes header content) headers files) @
                  replicate 1024 0)" and
    read: "ustarRead
             (concat (map2 (\<lambda>header (filePath, content). entryBytes header content) headers files) @
              replicate 1024 0) =
             Some (map (\<lambda>(filePath, content). (cString (take 100 (encode filePath)), encode content)) files)"
    by blast
  have "map (\<lambda>(filePath, content). (cString (take 100 (encode filePath)), encode content)) files =
        map (\<lambda>(filePath, content). (encode filePath, encode content)) files"
    if "\<forall>(filePath, content) \<in> set files.
          length (encode filePath) \<le> 100 \<and> 0 \<notin> set (encode filePath)"
  proof -
    have "cString (take 100 (encode filePath)) = encode filePath"
      if "(filePath, content) \<in> set files" for filePath content
      using that \<open>\<forall>(filePath, content) \<in> set files.
          length (encode filePath) \<le> 100 \<and> 0 \<notin> set (encode filePath)\<close>
      by (intro cString_whole) auto
    then show ?thesis by auto
  qed
  with layout read show ?thesis
    by (intro exI [of _ headers]) simp
qed

lemma set_objectEntries: "set (objectEntries files) = set files"
  by (auto simp: objectEntries_def)

lemma length_objectEntries: "length (objectEntries files) = length files"
proof -
  have "length (filter (\<lambda>(filePath, content). isArrayIndex filePath) files) +
        length (filter (\<lambda>(filePath, content). \<not> isArrayIndex filePath) files) = length files"
    by (induction files) auto
  then show ?thesis
    by (simp add: objectEntries_def)
qed

lemma objectEntries_plain:
  assumes "\<forall>(filePath, content) \<in> set files. \<not> isArrayIndex filePath"
  shows "objectEntries files = files"
proof -
  have "filter (\<lambda>(filePath, content). isArrayIndex filePath) files = []"
    using assms by (auto simp: filter_empty_conv)
  moreover have "filter (\<lambda>(filePath, content). \<not> isArrayIndex filePath) files = files"
    using assms by (auto simp: filter_id_conv)
  ultimately show ?thesis
    by (simp add: objectEntries_def)
qed

text \<open>
  Claim C3, as amended. For every file set whose contents are shorter than \<open>8\<^sup>1\<^sup>1\<close> bytes,
  at clock values below \<open>8\<^sup>1\<^sup>1\<close> seconds, the archive of \<^verbatim>\<open>handlePackage\<close> is, for each
  entry in the order of \<^verbatim>\<open>Object.entries\<close>, the 512-byte header that \<^verbatim>\<open>createTarHeader\<close>
  makes for the path and the content length, the content, and zeros up to the next
  multiple of 512 (none when the length is a multiple of 512), followed by 1024 zeros. The
  entries are the files of the set, each once; their order is the order in which the files
  were put into the set when no path is an array index. Read back field by field, the
  archive gives every content byte for byte and, as the path of an entry, the first 100
  bytes of the path cut at the first NUL: the paths themselves when each has at most 100
  bytes and no NUL.
\<close>

theorem tar_archive_layout_and_read_back:
  assumes "\<forall>(filePath, content) \<in> set files. length (encode content) < 8 ^ 11"
    and "\<forall>k. clock k < 8 ^ 11 * 1000"
  shows "\<exists>headers.
           length headers = length (objectEntries files) \<and>
           (\<forall>i < length (objectEntries files).
              createTarHeader (clock i) (fst (objectEntries files ! i))
                  (length (encode (snd (objectEntries files ! i)))) =
                Inr (headers ! i) \<and>
              length (headers ! i) = 512) \<and>
           handlePackageTarBuffer clock files =
             Inr (concat (map2 (\<lambda>header (filePath, content). entryBytes header content)
                            headers (objectEntries files)) @
                  replicate 1024 0) \<and>
           ustarRead
             (concat (map2 (\<lambda>header (filePath, content). entryBytes header content)
                        headers (objectEntries files)) @
              replicate 1024 0) =
             Some (map (\<lambda>(filePath, content). (cString (take 100 (encode filePath)), encode content))
                     (objectEntries files)) \<and>
           ((\<forall>(filePath, content) \<in> set files.
                length (encode filePath) \<le> 100 \<and> 0 \<notin> set (encode filePath)) \<longrightarrow>
            ustarRead
              (concat (map2 (\<lambda>header (filePath, content). entryBytes header content)
                         headers (objectEntries files)) @
               replicate 1024 0) =
              Some (map (\<lambda>(filePath, content). (encode filePath, encode content)) (objectEntries files))) \<and>
           set (objectEntries files) = set files \<and>
           length (objectEntries files) = length files \<and>
           ((\<forall>(filePath, content) \<in> set files. \<not> isArrayIndex filePath) \<longrightarrow>
            objectEntries files = files)"
proof -
  have sizes: "\<forall>(filePath, content) \<in> set (objectEntries files). length (encode content) < 8 ^ 11"
    using assms(1) by (simp only: set_objectEntries)
  from archive_of_entries [OF sizes assms(2)] obtain headers where
    "length headers = length (objectEntries files)"
    "\<forall>i < length (objectEntries files).
        createTarHeader (clock i) (fst (objectEntries files ! i))
            (length (encode (snd (objectEntries files ! i)))) =
          Inr (headers ! i) \<and>
        length (headers ! i) = 512"
    "tarBufferOf clock (objectEntries files) =
       Inr (concat (map2 (\<lambda>header (filePath, content). entryBytes header content)
                      headers (objectEntries files)) @
            replicate 1024 0)"
    "ustarRead
       (concat (map2 (\<lambda>header (filePath, content). entryBytes header content)
                  headers (objectEntries files)) @
        replicate 1024 0) =
       Some (map (\<lambda>(filePath, content). (cString (take 100 (encode filePath)), encode content))
               (objectEntries files))"
    "(\<forall>(filePath, content) \<in> set (objectEntries files).
          length (encode filePath) \<le> 100 \<and> 0 \<notin> set (encode filePath)) \<longrightarrow>
      ustarRead
        (concat (map2 (\<lambda>header (filePath, content). entryBytes header content)
                   headers (objectEntries files)) @
         replicate 1024 0) =
        Some (map (\<lambda>(filePath, content). (encode filePath, encode content)) (objectEntries files))"
    by blast
  then show ?thesis
    using objectEntries_plain [of files]
    by (intro exI [of _ headers])
      (simp only: handlePackageTarBuffer_def set_objectEntries length_objectEntries, blast)
qed

theorem tar_archive_layout_and_read_back_witness:
  "\<exists>h0 h1 h2.
     length h0 = 512 \<and> length h1 = 512 \<and> length h2 = 512 \<and>
     handlePackageTarBuffer (\<lambda>k. 1730000000000)
       [(''empty'', []), (''block'', replicate 512 CHR ''x''), (''over'', replicate 513 CHR ''y'')] =
     Inr (h0 @
          h1 @ encode (replicate 512 CHR ''x'') @
          h2 @ encode (replicate 513 CHR ''y'') @ replicate 511 0 @
          replicate 1024 0) \<and>
     ustarRead
         (h0 @
          h1 @ encode (replicate 512 CHR ''x'') @
          h2 @ encode (replicate 513 CHR ''y'') @ replicate 511 0 @
          replicate 1024 0) =
     Some [(encode ''empty'', []),
           (encode ''block'', encode (replicate 512 CHR ''x'')),
           (encode ''over'', encode (replicate 513 CHR ''y''))]"
proof -
  let ?files = "[(''empty'', []), (''block'', replicate 512 CHR ''x''), (''over'', replicate 513 CHR ''y'')]"
  have sizes: "\<forall>(filePath, content) \<in> set ?files. length (encode content) < 8 ^ 11"
    by simp
  have clock: "\<forall>k :: nat. (1730000000000 :: nat) < 8 ^ 11 * 1000"
    by simp
  have names: "\<forall>(filePath, content) \<in> set ?files.
      length (encode filePath) \<le> 100 \<and> 0 \<notin> set (encode filePath)"
    by (simp add: encode_def)
  have plain: "\<forall>(filePath, content) \<in> set ?files. \<not> isArrayIndex filePath"
    by (simp add: isArrayIndex_def)
  from tar_archive_layout_and_read_back [OF sizes clock] names plain obtain headers where
    order: "objectEntries ?files = ?files" and
    len: "length headers = length (objectEntries ?files)" and
    each: "\<forall>i < length (objectEntries ?files). length (headers ! i) = 512" and
    buffer: "handlePackageTarBuffer (\<lambda>k. 1730000000000) ?files =
       Inr (concat (map2 (\<lambda>header (filePath, content). entryBytes header content)
                      headers (objectEntries ?files)) @
            replicate 1024 0)" and
    read: "ustarRead
       (concat (map2 (\<lambda>header (filePath, content). entryBytes header content)
                  headers (objectEntries ?files)) @
        replicate 1024 0) =
       Some (map (\<lambda>(filePath, content). (encode filePath, encode content)) (objectEntries ?files))"
    by blast
  from len obtain h0 h1 h2 where headers: "headers = [h0, h1, h2]"
    unfolding order by (auto simp: length_Suc_conv eval_nat_numeral)
  have "length h0 = 512" "length h1 = 512" "length h2 = 512"
    using each [unfolded order, rule_format, of 0] each [unfolded order, rule_format, of 1]
      each [unfolded order, rule_format, of 2]
    by (simp_all add: headers)
  moreover have "concat (map2 (\<lambda>header (filePath, content). entryBytes header content) headers ?files) =
      h0 @ h1 @ encode (replicate 512 CHR ''x'') @ h2 @ encode (replicate 513 CHR ''y'') @ replicate 511 0"
    by (simp add: headers encode_def)
  ultimately show ?thesis
    using buffer [unfolded order] read [unfolded order]
    by (intro exI [of _ h0] exI [of _ h1] exI [of _ h2]) (simp add: encode_def)
qed

text \<open>
  The claim as stated promises the paths back for every file set, in the order in which
  the files were put into the set. From the archive of the single empty file whose path is
  101 letters \<^verbatim>\<open>a\<close>, a path of 100 letters is read back. From the archive of the file \<^verbatim>\<open>b\<close>
  followed by the file \<^verbatim>\<open>1\<close>, the file \<^verbatim>\<open>1\<close> is read back first: its path is an array index.
  From the archive of the file whose path is \<^verbatim>\<open>a\<close>, a NUL and \<^verbatim>\<open>b\<close>, the path \<^verbatim>\<open>a\<close> is read back.
\<close>

theorem tar_long_path_not_recovered_counterexample:
  "\<not> isl (handlePackageTarBuffer (\<lambda>k. 0) [(replicate 101 CHR ''a'', [])]) \<and>
   ustarRead (projr (handlePackageTarBuffer (\<lambda>k. 0) [(replicate 101 CHR ''a'', [])])) =
     Some [(replicate 100 97, [])] \<and>
   Some [(replicate 100 97, [])] \<noteq> Some [(encode (replicate 101 CHR ''a''), encode [])] \<and>
   \<not> isl (handlePackageTarBuffer (\<lambda>k. 0) [(''b'', ''x''), (''1'', ''y'')]) \<and>
   ustarRead (projr (handlePackageTarBuffer (\<lambda>k. 0) [(''b'', ''x''), (''1'', ''y'')])) =
     Some [(encode ''1'', encode ''y''), (encode ''b'', encode ''x'')] \<and>
   \<not> isl (handlePackageTarBuffer (\<lambda>k. 0) [([CHR ''a'', CHR 0x00, CHR ''b''], [])]) \<and>
   ustarRead (projr (handlePackageTarBuffer (\<lambda>k. 0) [([CHR ''a'', CHR 0x00, CHR ''b''], [])])) =
     Some [([97], [])] \<and>
   Some [([97], [])] \<noteq> Some [(encode [CHR ''a'', CHR 0x00, CHR ''b''], encode [])]"
proof -
  let ?files = "[(replicate 101 CHR ''a'', [])]"
  have sizes: "\<forall>(filePath, content) \<in> set ?files. length (encode content) < 8 ^ 11"
    by simp
  have clock: "\<forall>k :: nat. (0 :: nat) < 8 ^ 11 * 1000"
    by simp
  have letters: "of_char CHR ''a'' = (97 :: nat)"
    by simp
  have "\<not> isArrayIndex (replicate 101 CHR ''a'')"
    by (simp add: isArrayIndex_def list_all_iff letters)
  then have entries: "objectEntries ?files = ?files"
    by (simp add: objectEntries_def)
  from tarBufferOf_read_back [OF sizes clock] obtain headers where
    buffer: "tarBufferOf (\<lambda>k. 0) ?files =
       Inr (concat (map2 (\<lambda>header (filePath, content). entryBytes header content) headers ?files) @
            replicate 1024 0)" and
    read: "ustarRead
       (concat (map2 (\<lambda>header (filePath, content). entryBytes header content) headers ?files) @
        replicate 1024 0) =
       Some (map (\<lambda>(filePath, content). (cString (take 100 (encode filePath)), encode content)) ?files)"
    by blast
  have "cString (take 100 (encode (replicate 101 CHR ''a''))) = replicate 100 97"
    by (simp add: cString_def encode_def)
  then have long: "ustarRead (projr (tarBufferOf (\<lambda>k. 0) ?files)) = Some [(replicate 100 97, [])]"
    using read by (simp add: buffer encode_def)
  have differ: "replicate 100 (97 :: byte) \<noteq> encode (replicate 101 CHR ''a'')"
  proof
    assume "replicate 100 (97 :: byte) = encode (replicate 101 CHR ''a'')"
    then have "length (replicate 100 (97 :: byte)) = length (encode (replicate 101 CHR ''a''))"
      by (rule arg_cong)
    then show False by simp
  qed
  let ?pair = "[(''b'', ''x''), (''1'', ''y'')]"
  let ?sorted = "[(''1'', ''y''), (''b'', ''x'')]"
  have sorted: "objectEntries ?pair = ?sorted"
    by (simp add: objectEntries_def isArrayIndex_def decimalValue_def)
  have sizes': "\<forall>(filePath, content) \<in> set ?sorted. length (encode content) < 8 ^ 11"
    by (simp add: encode_def)
  from tarBufferOf_read_back [OF sizes' clock] obtain headers' where
    buffer': "tarBufferOf (\<lambda>k. 0) ?sorted =
       Inr (concat (map2 (\<lambda>header (filePath, content). entryBytes header content) headers' ?sorted) @
            replicate 1024 0)" and
    read': "ustarRead
       (concat (map2 (\<lambda>header (filePath, content). entryBytes header content) headers' ?sorted) @
        replicate 1024 0) =
       Some (map (\<lambda>(filePath, content). (cString (take 100 (encode filePath)), encode content)) ?sorted)"
    by blast
  have "cString (take 100 (encode ''1'')) = encode ''1''" "cString (take 100 (encode ''b'')) = encode ''b''"
    by (simp_all add: cString_def encode_def)
  then have order: "ustarRead (projr (tarBufferOf (\<lambda>k. 0) ?sorted)) =
      Some [(encode ''1'', encode ''y''), (encode ''b'', encode ''x'')]"
    using read' by (simp add: buffer')
  let ?cut = "[([CHR ''a'', CHR 0x00, CHR ''b''], [])]"
  have "\<not> isArrayIndex [CHR ''a'', CHR 0x00, CHR ''b'']"
    by (simp add: isArrayIndex_def letters)
  then have entries'': "objectEntries ?cut = ?cut"
    by (simp add: objectEntries_def)
  have sizes'': "\<forall>(filePath, content) \<in> set ?cut. length (encode content) < 8 ^ 11"
    by simp
  from tarBufferOf_read_back [OF sizes'' clock] obtain headers'' where
    buffer'': "tarBufferOf (\<lambda>k. 0) ?cut =
       Inr (concat (map2 (\<lambda>header (filePath, content). entryBytes header content) headers'' ?cut) @
            replicate 1024 0)" and
    read'': "ustarRead
       (concat (map2 (\<lambda>header (filePath, content). entryBytes header content) headers'' ?cut) @
        replicate 1024 0) =
       Some (map (\<lambda>(filePath, content). (cString (take 100 (encode filePath)), encode content)) ?cut)"
    by blast
  have "cString (take 100 (encode [CHR ''a'', CHR 0x00, CHR ''b''])) = [97]"
    by (simp add: cString_def encode_def)
  then have cut: "ustarRead (projr (tarBufferOf (\<lambda>k. 0) ?cut)) = Some [([97], [])]"
    using read'' by (simp add: buffer'' encode_def)
  have differ'': "[97 :: byte] \<noteq> encode [CHR ''a'', CHR 0x00, CHR ''b'']"
    by (simp add: encode_def)
  show ?thesis
    unfolding handlePackageTarBuffer_def entries sorted entries''
    using long differ order cut differ'' by (simp add: buffer buffer' buffer'')
qed

section \<open>Facts about the tracker injection\<close>

lemma getSubstitution_plain:
  "CHR ''$'' \<notin> set template \<Longrightarrow> getSubstitution matched str position template = template"
  by (induction matched str position template rule: getSubstitution.induct) auto

lemma replaceFirst_plain:
  assumes "CHR ''$'' \<notin> set replaceValue" and "indexOf str searchValue = Some n"
  shows "replaceFirst str searchValue replaceValue =
         take n str @ replaceValue @ drop (n + length searchValue) str"
  using assms by (simp add: replaceFirst_def getSubstitution_plain)

lemma replaceFirst_absent: "indexOf str searchValue = None \<Longrightarrow> replaceFirst str searchValue r = str"
  by (simp add: replaceFirst_def)

lemma digitChar_not_dollar: "d < 36 \<Longrightarrow> digitChar d \<noteq> CHR ''$''"
proof
  assume d: "d < 36" and eq: "digitChar d = CHR ''$''"
  have "(of_char (digitChar d) :: nat) = (if d < 10 then 48 + d else 87 + d)"
    using d by (simp add: digitChar_def)
  moreover have "(of_char (digitChar d) :: nat) = 36"
    by (simp add: eq)
  ultimately show False
    by (simp split: if_splits)
qed

lemma quoteChar_no_dollar: "c \<noteq> CHR ''$'' \<Longrightarrow> CHR ''$'' \<notin> set (quoteChar c)"
  by (auto simp: quoteChar_def hex4_def dest!: sym [of "CHR ''$''"] simp: digitChar_not_dollar)

lemma jsonStringify_no_dollar: "CHR ''$'' \<notin> set s \<Longrightarrow> CHR ''$'' \<notin> set (jsonStringify s)"
proof -
  assume "CHR ''$'' \<notin> set s"
  then have "CHR ''$'' \<notin> set (quoteChar c)" if "c \<in> set s" for c
    using that quoteChar_no_dollar [of c] by auto
  then show ?thesis
    by (auto simp: jsonStringify_def dq_def)
qed

lemma stripTrailingSlash_subset: "set (stripTrailingSlash s) \<subseteq> set s"
  by (auto simp: stripTrailingSlash_def dest: in_set_butlastD)

lemma trackerScript_no_dollar:
  assumes "CHR ''$'' \<notin> set flyAppName" and "CHR ''$'' \<notin> set boltUrl"
  shows "CHR ''$'' \<notin> set (trackerScript flyAppName boltUrl)"
proof -
  have "CHR ''$'' \<notin> set (stripTrailingSlash boltUrl)"
    using assms(2) stripTrailingSlash_subset by blast
  then show ?thesis
    using assms(1) by (simp add: trackerScript_def jsonStringify_no_dollar)
qed

lemma injectTracker_body:
  assumes dollar: "CHR ''$'' \<notin> set flyAppName" "CHR ''$'' \<notin> set url"
    and url: "url \<noteq> []"
    and html: "map_of files ''index.html'' = Some html"
    and body: "indexOf html ''</body>'' = Some n"
  shows "injectTracker flyAppName (Some url) files =
         AList.update ''index.html'' (take n html @ trackerScript flyAppName url @ drop n html) files"
proof -
  let ?script = "trackerScript flyAppName url"
  have plain: "CHR ''$'' \<notin> set (?script @ ''</body>'')"
    using trackerScript_no_dollar [OF dollar] by simp
  have at: "html = take n html @ ''</body>'' @ drop (n + length ''</body>'') html"
    using indexOf_Some [OF body] by blast
  then have nonempty: "html \<noteq> []"
    by auto
  have "drop n html = ''</body>'' @ drop (n + length ''</body>'') html"
    using at indexOf_Some [OF body] by (metis append_eq_conv_conj length_take min.absorb2 add_leD1)
  then have replaced: "replaceFirst html ''</body>'' (?script @ ''</body>'') =
      take n html @ ?script @ drop n html"
    using replaceFirst_plain [OF plain body] by simp
  have "includesStr (take n html @ ?script @ drop n html) ?script"
    by (rule includesStr_middle)
  then show ?thesis
    using url html nonempty by (simp add: injectTracker_def Let_def replaced)
qed

lemma injectTracker_html:
  assumes dollar: "CHR ''$'' \<notin> set flyAppName" "CHR ''$'' \<notin> set url"
    and url: "url \<noteq> []"
    and html: "map_of files ''index.html'' = Some html"
    and body: "indexOf html ''</body>'' = None"
    and fresh: "\<not> includesStr html (trackerScript flyAppName url)"
    and close: "indexOf html ''</html>'' = Some n"
  shows "injectTracker flyAppName (Some url) files =
         AList.update ''index.html'' (take n html @ trackerScript flyAppName url @ drop n html) files"
proof -
  let ?script = "trackerScript flyAppName url"
  have plain: "CHR ''$'' \<notin> set (?script @ ''</html>'')"
    using trackerScript_no_dollar [OF dollar] by simp
  have at: "html = take n html @ ''</html>'' @ drop (n + length ''</html>'') html"
    using indexOf_Some [OF close] by blast
  then have nonempty: "html \<noteq> []"
    by auto
  have "drop n html = ''</html>'' @ drop (n + length ''</html>'') html"
    using at indexOf_Some [OF close] by (metis append_eq_conv_conj length_take min.absorb2 add_leD1)
  then have replaced: "replaceFirst html ''</html>'' (?script @ ''</html>'') =
      take n html @ ?script @ drop n html"
    using replaceFirst_plain [OF plain close] by simp
  show ?thesis
    using url html nonempty fresh
    by (simp add: injectTracker_def Let_def replaceFirst_absent [OF body] replaced)
qed

lemma injectTracker_skipped:
  assumes "boltUrl = None \<or> boltUrl = Some [] \<or>
           map_of files ''index.html'' = None \<or> map_of files ''index.html'' = Some []"
  shows "injectTracker flyAppName boltUrl files = files"
  using assms by (auto simp: injectTracker_def split: option.splits)

lemma injectTracker_others:
  "name \<noteq> ''index.html'' \<Longrightarrow> map_of (injectTracker flyAppName boltUrl files) name = map_of files name"
  by (simp add: injectTracker_def Let_def update_conv' split: option.splits)

text \<open>
  Claim C6, as amended. Let neither the app name nor the callback origin contain a dollar
  sign. When the origin is supplied (not empty) and \<^verbatim>\<open>index.html\<close> is in the file set, the
  handler puts the tracker script immediately before the first closing body tag of
  \<^verbatim>\<open>index.html\<close>; when the document has no closing body tag and does not hold the script
  already, it puts the script immediately before the first closing html tag. When no origin
  is supplied, or \<^verbatim>\<open>index.html\<close> is missing or empty, the file set is left as it is. No
  other file is ever changed.
\<close>

theorem tracker_injected_before_closing_tag:
  assumes "CHR ''$'' \<notin> set flyAppName" and "CHR ''$'' \<notin> set url"
  shows "(url \<noteq> [] \<and> map_of files ''index.html'' = Some html \<and> indexOf html ''</body>'' = Some n \<longrightarrow>
            startsWith (drop n html) ''</body>'' \<and>
            injectTracker flyAppName (Some url) files =
              AList.update ''index.html'' (take n html @ trackerScript flyAppName url @ drop n html) files) \<and>
         (url \<noteq> [] \<and> map_of files ''index.html'' = Some html \<and> indexOf html ''</body>'' = None \<and>
          \<not> includesStr html (trackerScript flyAppName url) \<and> indexOf html ''</html>'' = Some n \<longrightarrow>
            startsWith (drop n html) ''</html>'' \<and>
            injectTracker flyAppName (Some url) files =
              AList.update ''index.html'' (take n html @ trackerScript flyAppName url @ drop n html) files) \<and>
         (boltUrl = None \<or> boltUrl = Some [] \<or>
          map_of files ''index.html'' = None \<or> map_of files ''index.html'' = Some [] \<longrightarrow>
            injectTracker flyAppName boltUrl files = files) \<and>
         (\<forall>name. name \<noteq> ''index.html'' \<longrightarrow>
            map_of (injectTracker flyAppName boltUrl files) name = map_of files name)"
proof -
  have starts: "startsWith (drop k s) p" if "indexOf s p = Some k" for s p :: string and k
  proof -
    have "s = take k s @ p @ drop (k + length p) s" "k + length p \<le> length s"
      using indexOf_Some [OF that] by blast+
    then have "drop k s = p @ drop (k + length p) s"
      by (metis append_eq_conv_conj length_take min.absorb2 add_leD1)
    then show ?thesis
      by (auto simp: startsWith_iff)
  qed
  have body: "startsWith (drop n html) ''</body>'' \<and>
      injectTracker flyAppName (Some url) files =
        AList.update ''index.html'' (take n html @ trackerScript flyAppName url @ drop n html) files"
    if "url \<noteq> [] \<and> map_of files ''index.html'' = Some html \<and> indexOf html ''</body>'' = Some n"
    using that starts [of html "''</body>''" n] injectTracker_body [OF assms, of files html n]
    by simp
  have fallback: "startsWith (drop n html) ''</html>'' \<and>
      injectTracker flyAppName (Some url) files =
        AList.update ''index.html'' (take n html @ trackerScript flyAppName url @ drop n html) files"
    if "url \<noteq> [] \<and> map_of files ''index.html'' = Some html \<and> indexOf html ''</body>'' = None \<and>
        \<not> includesStr html (trackerScript flyAppName url) \<and> indexOf html ''</html>'' = Some n"
    using that starts [of html "''</html>''" n] injectTracker_html [OF assms, of files html n]
    by simp
  have skipped: "injectTracker flyAppName boltUrl files = files"
    if "boltUrl = None \<or> boltUrl = Some [] \<or>
        map_of files ''index.html'' = None \<or> map_of files ''index.html'' = Some []"
    using that by (rule injectTracker_skipped)
  have others: "\<forall>name. name \<noteq> ''index.html'' \<longrightarrow>
      map_of (injectTracker flyAppName boltUrl files) name = map_of files name"
    using injectTracker_others by blast
  show ?thesis
  proof (intro conjI)
    show "url \<noteq> [] \<and> map_of files ''index.html'' = Some html \<and> indexOf html ''</body>'' = Some n \<longrightarrow>
            startsWith (drop n html) ''</body>'' \<and>
            injectTracker flyAppName (Some url) files =
              AList.update ''index.html'' (take n html @ trackerScript flyAppName url @ drop n html) files"
      using body by (rule impI)
    show "url \<noteq> [] \<and> map_of files ''index.html'' = Some html \<and> indexOf html ''</body>'' = None \<and>
          \<not> includesStr html (trackerScript flyAppName url) \<and> indexOf html ''</html>'' = Some n \<longrightarrow>
            startsWith (drop n html) ''</html>'' \<and>
            injectTracker flyAppName (Some url) files =
              AList.update ''index.html'' (take n html @ trackerScript flyAppName url @ drop n html) files"
      using fallback by (rule impI)
    show "boltUrl = None \<or> boltUrl = Some [] \<or>
          map_of files ''index.html'' = None \<or> map_of files ''index.html'' = Some [] \<longrightarrow>
            injectTracker flyAppName boltUrl files = files"
      using skipped by (rule impI)
    show "\<forall>name. name \<noteq> ''index.html'' \<longrightarrow>
            map_of (injectTracker flyAppName boltUrl files) name = map_of files name"
      by (rule others)
  qed
qed

lemma sample_script:
  "indexOf (trackerScript ''demo-ab12'' ''https://bolt.example'' @ ''</html>'') ''</body>'' = None"
  by (simp add: trackerScript_def jsonStringify_def quoteChar_def stripTrailingSlash_def dq_def)

lemma sample_script_html:
  "indexOf (trackerScript ''demo-ab12'' ''https://bolt.example'' @ ''</html>'') ''</html>'' =
   Some (length (trackerScript ''demo-ab12'' ''https://bolt.example''))"
  by (simp add: trackerScript_def jsonStringify_def quoteChar_def stripTrailingSlash_def dq_def)

theorem tracker_injected_before_closing_tag_witness:
  "injectTracker ''demo-ab12'' (Some ''https://bolt.example/'')
     [(''Dockerfile'', ''FROM nginx''), (''index.html'', ''<html><body>hi</body></html>'')] =
   [(''Dockerfile'', ''FROM nginx''),
    (''index.html'', ''<html><body>hi'' @ trackerScript ''demo-ab12'' ''https://bolt.example/'' @
       ''</body></html>'')] \<and>
   injectTracker ''demo-ab12'' None
     [(''Dockerfile'', ''FROM nginx''), (''index.html'', ''<html><body>hi</body></html>'')] =
   [(''Dockerfile'', ''FROM nginx''), (''index.html'', ''<html><body>hi</body></html>'')]"
proof -
  have dollar: "CHR ''$'' \<notin> set ''demo-ab12''" "CHR ''$'' \<notin> set ''https://bolt.example/''"
    by simp_all
  have at: "indexOf ''<html><body>hi</body></html>'' ''</body>'' = Some 14"
    by simp
  show ?thesis
    using tracker_injected_before_closing_tag [OF dollar,
        of "[(''Dockerfile'', ''FROM nginx''), (''index.html'', ''<html><body>hi</body></html>'')]"
           "''<html><body>hi</body></html>''" 14 None] at
    by simp
qed

text \<open>
  The claim as stated puts the script before the closing html tag whenever the document has
  no closing body tag. A document without a closing body tag that already holds the script
  is left as it is.
\<close>

theorem tracker_fallback_skipped_counterexample:
  "indexOf (trackerScript ''demo-ab12'' ''https://bolt.example'' @ ''</html>'') ''</body>'' = None \<and>
   indexOf (trackerScript ''demo-ab12'' ''https://bolt.example'' @ ''</html>'') ''</html>'' =
     Some (length (trackerScript ''demo-ab12'' ''https://bolt.example'')) \<and>
   injectTracker ''demo-ab12'' (Some ''https://bolt.example'')
     [(''index.html'', trackerScript ''demo-ab12'' ''https://bolt.example'' @ ''</html>'')] =
   [(''index.html'', trackerScript ''demo-ab12'' ''https://bolt.example'' @ ''</html>'')] \<and>
   trackerScript ''demo-ab12'' ''https://bolt.example'' @ ''</html>'' \<noteq>
   trackerScript ''demo-ab12'' ''https://bolt.example'' @
   trackerScript ''demo-ab12'' ''https://bolt.example'' @ ''</html>''"
proof -
  let ?script = "trackerScript ''demo-ab12'' ''https://bolt.example''"
  have present: "includesStr (?script @ ''</html>'') ?script"
    using includesStr_middle [of "[]" ?script "''</html>''"] by simp
  have nonempty: "?script \<noteq> []"
    by (simp add: trackerScript_def)
  have unchanged: "injectTracker ''demo-ab12'' (Some ''https://bolt.example'')
      [(''index.html'', ?script @ ''</html>'')] = [(''index.html'', ?script @ ''</html>'')]"
    using present nonempty
    by (simp add: injectTracker_def Let_def replaceFirst_absent [OF sample_script])
  show ?thesis
    using sample_script sample_script_html unchanged nonempty by simp
qed

section \<open>Facts about the project detector\<close>

lemma detectBuild_found:
  assumes "truthy (optionalMember (ownProperty pkg ''scripts'') ''build'')"
  shows "detectBuild pkg result = Inr (result\<lparr>hasBuildScript := True, buildCommand := ''npm run build''\<rparr>)"
proof -
  have "pkg \<noteq> JNull"
    using assms by (auto simp: ownProperty_def optionalMember_def truthy_def)
  then have "member (Some pkg) ''scripts'' = Inr (ownProperty pkg ''scripts'')"
    by (cases pkg) (simp_all add: member_def)
  then show ?thesis
    using assms by (simp add: detectBuild_def andThen_def)
qed

lemma member_object: "pkg \<noteq> JNull \<Longrightarrow> member (Some pkg) name = Inr (ownProperty pkg name)"
  by (cases pkg) (simp_all add: member_def)

lemma detectStart_keeps:
  assumes "detectStart toText pkg result = Inr result'"
  shows "hasBuildScript result' = hasBuildScript result \<and>
         buildOutputDir result' = buildOutputDir result \<and> type result' = type result"
  using assms
  by (auto simp: detectStart_def andThen_def split: sum.splits if_splits option.splits)

lemma detectNodeVersion_keeps:
  assumes "detectNodeVersion pkg result = Inr result'"
  shows "hasBuildScript result' = hasBuildScript result \<and>
         buildOutputDir result' = buildOutputDir result \<and> type result' = type result"
  using assms
  by (auto simp: detectNodeVersion_def andThen_def split: sum.splits if_splits option.splits json.splits)

lemma detectOutputDir_vite:
  assumes "pkg \<noteq> JNull"
    and "\<not> truthy (spreadLookup (ownProperty pkg ''dependencies'') (ownProperty pkg ''devDependencies'') ''next'')"
    and "\<not> truthy (spreadLookup (ownProperty pkg ''dependencies'') (ownProperty pkg ''devDependencies'') ''nuxt'')"
    and "\<not> truthy (spreadLookup (ownProperty pkg ''dependencies'') (ownProperty pkg ''devDependencies'') ''nuxt3'')"
    and "\<not> truthy (spreadLookup (ownProperty pkg ''dependencies'') (ownProperty pkg ''devDependencies'') ''@remix-run/react'')"
    and "\<not> truthy (spreadLookup (ownProperty pkg ''dependencies'') (ownProperty pkg ''devDependencies'') ''remix'')"
    and "truthy (spreadLookup (ownProperty pkg ''dependencies'') (ownProperty pkg ''devDependencies'') ''vite'')"
  shows "detectOutputDir pkg result = Inr (result\<lparr>buildOutputDir := ''dist''\<rparr>)"
  using assms by (simp add: detectOutputDir_def andThen_def member_object Let_def)

lemma tryStatements_detect:
  assumes build: "truthy (optionalMember (ownProperty pkg ''scripts'') ''build'')"
    and "\<not> truthy (spreadLookup (ownProperty pkg ''dependencies'') (ownProperty pkg ''devDependencies'') ''next'')"
    and "\<not> truthy (spreadLookup (ownProperty pkg ''dependencies'') (ownProperty pkg ''devDependencies'') ''nuxt'')"
    and "\<not> truthy (spreadLookup (ownProperty pkg ''dependencies'') (ownProperty pkg ''devDependencies'') ''nuxt3'')"
    and "\<not> truthy (spreadLookup (ownProperty pkg ''dependencies'') (ownProperty pkg ''devDependencies'') ''@remix-run/react'')"
    and "\<not> truthy (spreadLookup (ownProperty pkg ''dependencies'') (ownProperty pkg ''devDependencies'') ''remix'')"
    and "truthy (spreadLookup (ownProperty pkg ''dependencies'') (ownProperty pkg ''devDependencies'') ''vite'')"
    and dist: "buildOutputDir result = ''dist''"
  shows "hasBuildScript (tryStatements [detectBuild pkg, detectStart toText pkg,
           detectOutputDir pkg, detectNodeVersion pkg] result) \<and>
         buildOutputDir (tryStatements [detectBuild pkg, detectStart toText pkg,
           detectOutputDir pkg, detectNodeVersion pkg] result) = ''dist'' \<and>
         type (tryStatements [detectBuild pkg, detectStart toText pkg,
           detectOutputDir pkg, detectNodeVersion pkg] result) = type result"
proof -
  let ?r1 = "result\<lparr>hasBuildScript := True, buildCommand := ''npm run build''\<rparr>"
  have nonnull: "pkg \<noteq> JNull"
    using build by (auto simp: ownProperty_def optionalMember_def truthy_def)
  have s1: "detectBuild pkg result = Inr ?r1"
    by (rule detectBuild_found [OF build])
  show ?thesis
  proof (cases "detectStart toText pkg ?r1")
    case (Inl e)
    then show ?thesis
      using s1 dist by simp
  next
    case (Inr r2)
    then have r2: "hasBuildScript r2" "buildOutputDir r2 = ''dist''" "type r2 = type result"
      using detectStart_keeps [OF Inr] dist by simp_all
    have s3: "detectOutputDir pkg r2 = Inr (r2\<lparr>buildOutputDir := ''dist''\<rparr>)"
      by (rule detectOutputDir_vite [OF nonnull assms(2-7)])
    show ?thesis
    proof (cases "detectNodeVersion pkg (r2\<lparr>buildOutputDir := ''dist''\<rparr>)")
      case (Inl e)
      then show ?thesis
        using s1 Inr s3 r2 by simp
    next
      case (Inr r4)
      then show ?thesis
        using s1 \<open>detectStart toText pkg ?r1 = Inr r2\<close> s3 r2 detectNodeVersion_keeps [OF Inr]
        by simp
    qed
  qed
qed

text \<open>
  Claim C9, as amended. Let \<^verbatim>\<open>package.json\<close> be present, not empty, and parse to a value whose
  \<^verbatim>\<open>scripts.build\<close> is truthy and whose merged dependencies
  \<^verbatim>\<open>{ ...dependencies, ...devDependencies }\<close>, in which an entry of \<^verbatim>\<open>devDependencies\<close>
  replaces the entry of \<^verbatim>\<open>dependencies\<close> with the same name, have a truthy \<^verbatim>\<open>vite\<close> entry and
  no truthy \<^verbatim>\<open>next\<close>, \<^verbatim>\<open>nuxt\<close>, \<^verbatim>\<open>nuxt3\<close>, \<^verbatim>\<open>@remix-run/react\<close> or \<^verbatim>\<open>remix\<close> entry. Then the
  detector returns \<^verbatim>\<open>hasBuildScript = true\<close> and \<^verbatim>\<open>buildOutputDir = "dist"\<close>, with or without
  a start script, whatever the other files and the other entries of the package are. The
  detector is a function of the file set, of \<^verbatim>\<open>JSON.parse\<close> and of the string conversion: the
  same input gives the same detection.
\<close>

theorem vite_project_detected:
  assumes "map_of files ''package.json'' = Some packageJson" and "packageJson \<noteq> []"
    and "jsonParse packageJson = Inr pkg"
    and "truthy (optionalMember (ownProperty pkg ''scripts'') ''build'')"
    and "\<not> truthy (spreadLookup (ownProperty pkg ''dependencies'') (ownProperty pkg ''devDependencies'') ''next'')"
    and "\<not> truthy (spreadLookup (ownProperty pkg ''dependencies'') (ownProperty pkg ''devDependencies'') ''nuxt'')"
    and "\<not> truthy (spreadLookup (ownProperty pkg ''dependencies'') (ownProperty pkg ''devDependencies'') ''nuxt3'')"
    and "\<not> truthy (spreadLookup (ownProperty pkg ''dependencies'') (ownProperty pkg ''devDependencies'') ''@remix-run/react'')"
    and "\<not> truthy (spreadLookup (ownProperty pkg ''dependencies'') (ownProperty pkg ''devDependencies'') ''remix'')"
    and "truthy (spreadLookup (ownProperty pkg ''dependencies'') (ownProperty pkg ''devDependencies'') ''vite'')"
  shows "hasBuildScript (detectProject jsonParse toText files) = True \<and>
         buildOutputDir (detectProject jsonParse toText files) = ''dist''"
proof -
  let ?init = "\<lparr>type = Node, hasPackageJson = True, hasBuildScript = False,
               buildCommand = [], startCommand = [], buildOutputDir = ''dist'',
               nodeVersion = ''20'', packageManager = Npm\<rparr>"
  let ?final = "tryStatements [detectBuild pkg, detectStart toText pkg,
              detectOutputDir pkg, detectNodeVersion pkg] ?init"
  have "hasBuildScript ?final \<and> buildOutputDir ?final = ''dist'' \<and> type ?final = type ?init"
    by (rule tryStatements_detect [OF assms(4-10)]) simp
  then have "hasBuildScript ?final" "buildOutputDir ?final = ''dist''" "type ?final = Node"
    by simp_all
  then show ?thesis
    using assms(1-3) by (simp add: detectProject_def Let_def del: tryStatements.simps)
qed

theorem vite_project_detected_witness:
  \<open>hasBuildScript
     (detectProject
        (\<lambda>text. Inr (JObj [(''dependencies'', JObj [(''vite'', JStr ''^5.0.0'')]),
                             (''scripts'', JObj [(''build'', JStr ''vite build'')])]))
        (\<lambda>v. case v of JStr s \<Rightarrow> Inr s | _ \<Rightarrow> Inl NonError)
        [(''package.json'', ''{"dependencies":{"vite":"^5.0.0"},"scripts":{"build":"vite build"}}'')]) = True \<and>
   buildOutputDir
     (detectProject
        (\<lambda>text. Inr (JObj [(''dependencies'', JObj [(''vite'', JStr ''^5.0.0'')]),
                             (''scripts'', JObj [(''build'', JStr ''vite build'')])]))
        (\<lambda>v. case v of JStr s \<Rightarrow> Inr s | _ \<Rightarrow> Inl NonError)
        [(''package.json'', ''{"dependencies":{"vite":"^5.0.0"},"scripts":{"build":"vite build"}}'')]) = ''dist''\<close>
  by (rule vite_project_detected
      [where packageJson = \<open>''{"dependencies":{"vite":"^5.0.0"},"scripts":{"build":"vite build"}}''\<close>
         and pkg = \<open>JObj [(''dependencies'', JObj [(''vite'', JStr ''^5.0.0'')]),
                       (''scripts'', JObj [(''build'', JStr ''vite build'')])]\<close>])
     (simp_all add: truthy_def optionalMember_def ownProperty_def spreadLookup_def)

text \<open>
  The claim as stated covers every package with a \<^verbatim>\<open>vite\<close> entry in its dependencies and a
  build script. Three packages that have both: a Remix project built with Vite, whose output
  directory is \<^verbatim>\<open>build\<close>, because the entry \<^verbatim>\<open>@remix-run/react\<close> is looked at before
  \<^verbatim>\<open>vite\<close>; a package whose \<^verbatim>\<open>devDependencies\<close> replace the \<^verbatim>\<open>vite\<close> entry of its
  \<^verbatim>\<open>dependencies\<close> by an empty string, whose output directory is the \<^verbatim>\<open>build\<close> of its
  \<^verbatim>\<open>react-scripts\<close> entry; and a package whose build script is the empty string, which has
  no build script for the detector.
\<close>

theorem vite_with_remix_counterexample:
  \<open>hasBuildScript
     (detectProject
        (\<lambda>text. Inr (JObj [(''dependencies'', JObj [(''@remix-run/react'', JStr ''^2.8.0''),
                                                     (''vite'', JStr ''^5.1.0'')]),
                             (''scripts'', JObj [(''build'', JStr ''remix vite:build'')])]))
        (\<lambda>v. case v of JStr s \<Rightarrow> Inr s | _ \<Rightarrow> Inl NonError)
        [(''package.json'',
          ''{"dependencies":{"@remix-run/react":"^2.8.0","vite":"^5.1.0"},"scripts":{"build":"remix vite:build"}}'')]) = True \<and>
   buildOutputDir
     (detectProject
        (\<lambda>text. Inr (JObj [(''dependencies'', JObj [(''@remix-run/react'', JStr ''^2.8.0''),
                                                     (''vite'', JStr ''^5.1.0'')]),
                             (''scripts'', JObj [(''build'', JStr ''remix vite:build'')])]))
        (\<lambda>v. case v of JStr s \<Rightarrow> Inr s | _ \<Rightarrow> Inl NonError)
        [(''package.json'',
          ''{"dependencies":{"@remix-run/react":"^2.8.0","vite":"^5.1.0"},"scripts":{"build":"remix vite:build"}}'')]) = ''build'' \<and>
   ''build'' \<noteq> ''dist'' \<and>
   buildOutputDir
     (detectProject
        (\<lambda>text. Inr (JObj [(''dependencies'', JObj [(''vite'', JStr ''^5.0.0''),
                                                     (''react-scripts'', JStr ''5.0.1'')]),
                             (''devDependencies'', JObj [(''vite'', JStr [])]),
                             (''scripts'', JObj [(''build'', JStr ''react-scripts build'')])]))
        (\<lambda>v. case v of JStr s \<Rightarrow> Inr s | _ \<Rightarrow> Inl NonError)
        [(''package.json'',
          ''{"dependencies":{"vite":"^5.0.0","react-scripts":"5.0.1"},"devDependencies":{"vite":""},"scripts":{"build":"react-scripts build"}}'')]) = ''build'' \<and>
   hasBuildScript
     (detectProject
        (\<lambda>text. Inr (JObj [(''dependencies'', JObj [(''vite'', JStr ''^5.0.0'')]),
                             (''scripts'', JObj [(''build'', JStr [])])]))
        (\<lambda>v. case v of JStr s \<Rightarrow> Inr s | _ \<Rightarrow> Inl NonError)
        [(''package.json'', ''{"dependencies":{"vite":"^5.0.0"},"scripts":{"build":""}}'')]) = False\<close>
  by (simp add: detectProject_def Let_def detectBuild_def detectStart_def detectOutputDir_def
      detectNodeVersion_def andThen_def member_def optionalMember_def ownProperty_def
      spreadLookup_def truthy_def truthyString_def)

section \<open>Facts about the one-click deploy\<close>

text \<open>
  Claim C2. When the project has been prepared, the one-click deploy sends a request. If
  the chat metadata holds a deployed URL (not empty) that \<^verbatim>\<open>new URL\<close> accepts, the app name
  of the request is the part of the URL's hostname before its first dot, and no name is
  generated. The name is the generated one, the cleaned project name cut to 24 characters,
  a hyphen and the last four base-36 digits of the clock, exactly when the metadata holds no
  URL, an empty one, or one that \<^verbatim>\<open>new URL\<close> rejects.
\<close>

theorem redeploy_reuses_app_name:
  assumes "result = Some r" and "success r" and "resultFiles r = Some files"
  shows "\<exists>logged request.
           oneClickRequest hostnameOf now origin existingUrl result = Inr (logged, request) \<and>
           (\<forall>url hostname. existingUrl = Some url \<and> url \<noteq> [] \<and> hostnameOf url = Some hostname \<longrightarrow>
              requestFlyAppName request = takeWhile (\<lambda>c. c \<noteq> CHR ''.'') hostname) \<and>
           (existingUrl = None \<or> existingUrl = Some [] \<or>
            (\<exists>url. existingUrl = Some url \<and> hostnameOf url = None) \<longrightarrow>
              requestFlyAppName request =
                take 24 (filter appNameChar (projectName r)) @ ''-'' @ sliceLast 4 (toStringRadix 36 now))"
  using assms
  by (auto simp: oneClickRequest_def Let_def firstLabel_def freshAppName_def split: option.splits)

theorem redeploy_reuses_app_name_witness:
  "\<exists>logged request.
     oneClickRequest
       (\<lambda>url. if url = ''https://foo-ab12.fly.dev'' then Some ''foo-ab12.fly.dev'' else None)
       1730000000000 ''http://localhost:5173'' (Some ''https://foo-ab12.fly.dev'')
       (Some \<lparr>success = True, resultFiles = Some [(''Dockerfile'', ''FROM nginx'')], projectName = ''foo''\<rparr>) =
     Inr (logged, request) \<and>
     requestFlyAppName request = ''foo-ab12''"
proof -
  from redeploy_reuses_app_name
    [of "Some \<lparr>success = True, resultFiles = Some [(''Dockerfile'', ''FROM nginx'')], projectName = ''foo''\<rparr>"
        "\<lparr>success = True, resultFiles = Some [(''Dockerfile'', ''FROM nginx'')], projectName = ''foo''\<rparr>"
        "[(''Dockerfile'', ''FROM nginx'')]"
        "\<lambda>url. if url = ''https://foo-ab12.fly.dev'' then Some ''foo-ab12.fly.dev'' else None"
        1730000000000 "''http://localhost:5173''" "Some ''https://foo-ab12.fly.dev''"]
  obtain logged request where
    sent: "oneClickRequest
       (\<lambda>url. if url = ''https://foo-ab12.fly.dev'' then Some ''foo-ab12.fly.dev'' else None)
       1730000000000 ''http://localhost:5173'' (Some ''https://foo-ab12.fly.dev'')
       (Some \<lparr>success = True, resultFiles = Some [(''Dockerfile'', ''FROM nginx'')], projectName = ''foo''\<rparr>) =
       Inr (logged, request)" and
    name: "\<forall>url hostname. Some ''https://foo-ab12.fly.dev'' = Some url \<and> url \<noteq> [] \<and>
        (if url = ''https://foo-ab12.fly.dev'' then Some ''foo-ab12.fly.dev'' else None) = Some hostname \<longrightarrow>
        requestFlyAppName request = takeWhile (\<lambda>c. c \<noteq> CHR ''.'') hostname"
    by auto
  from name [rule_format, of "''https://foo-ab12.fly.dev''" "''foo-ab12.fly.dev''"]
  have "requestFlyAppName request = ''foo-ab12''"
    by simp
  with sent show ?thesis by blast
qed

section \<open>Facts about the streaming parser\<close>

lemma startsWith_append: "startsWith rest tag \<Longrightarrow> startsWith (rest @ added) tag"
  by (auto simp: startsWith_iff)

lemma startsWith_length: "startsWith rest tag \<Longrightarrow> length tag \<le> length rest"
  by (auto simp: startsWith_iff)

lemma no_match_append:
  "\<not> startsWith rest tag \<Longrightarrow> \<not> startsWith tag rest \<Longrightarrow> \<not> startsWith (rest @ added) tag"
  by (induction rest tag rule: startsWith.induct) auto

lemma tagAt_Matched_append: "tagAt rest tag = Matched \<Longrightarrow> tagAt (rest @ added) tag = Matched"
  by (auto simp: tagAt_def startsWith_append split: if_splits)

lemma prefix_of_tag: "startsWith tag (rest @ added) \<Longrightarrow> startsWith tag rest"
  by (auto simp: startsWith_iff)

lemma tagAt_NoMatch_append: "tagAt rest tag = NoMatch \<Longrightarrow> tagAt (rest @ added) tag = NoMatch"
  by (auto simp: tagAt_def no_match_append split: if_splits dest: prefix_of_tag)

lemma tagAt_settled:
  "tagAt rest tag \<noteq> Partial \<Longrightarrow> tagAt (rest @ added) tag = tagAt rest tag"
  by (cases "tagAt rest tag") (simp_all add: tagAt_Matched_append tagAt_NoMatch_append)

lemma late_start:
  "\<not> startsWith rest tag \<Longrightarrow> startsWith (rest @ added) tag \<Longrightarrow> length rest < length tag"
  by (induction rest tag rule: startsWith.induct) auto

lemma indexOf_append:
  "indexOf rest tag = Some k \<Longrightarrow> indexOf (rest @ added) tag = Some k"
proof (induction rest arbitrary: k)
  case Nil
  then show ?case by (cases added) (auto split: if_splits)
next
  case (Cons c cs)
  show ?case
  proof (cases "startsWith (c # cs) tag")
    case True
    then show ?thesis
      using Cons.prems startsWith_append [OF True, of added] by simp
  next
    case False
    then obtain m where m: "indexOf cs tag = Some m" "k = Suc m"
      using Cons.prems by auto
    have "m + length tag \<le> length cs"
      using indexOf_Some [OF m(1)] by simp
    then have "\<not> startsWith ((c # cs) @ added) tag"
      using late_start [OF False, of added] by auto
    then show ?thesis
      using Cons.IH [OF m(1)] m(2) by simp
  qed
qed

lemma step_attributes:
  assumes "startsWith rest tag" and "indexOf rest ''>'' = Some k"
  shows "take (k - length tag) (drop (length tag) (rest @ added)) =
         take (k - length tag) (drop (length tag) rest)"
proof -
  have "k + 1 \<le> length rest"
    using indexOf_Some [OF assms(2)] by simp
  moreover have "length tag \<le> length rest"
    by (rule startsWith_length [OF assms(1)])
  ultimately show ?thesis by simp
qed

lemma stepOutside_nonempty:
  "rest \<noteq> [] \<Longrightarrow>
   stepOutside rest position =
     (if hd rest \<noteq> CHR ''<'' then Step [] [hd rest] \<lparr>cursor = position + 1, mode = Outside\<rparr>
      else
        (case tagAt rest artifactOpenTag of
           Partial \<Rightarrow> Wait []
         | NoMatch \<Rightarrow> Step [] [hd rest] \<lparr>cursor = position + 1, mode = Outside\<rparr>
         | Matched \<Rightarrow>
             (case indexOf rest ''>'' of
                None \<Rightarrow> Wait []
              | Some k \<Rightarrow>
                  Step [ArtifactOpen (take (k - length artifactOpenTag) (drop (length artifactOpenTag) rest))]
                    [] \<lparr>cursor = position + k + 1, mode = InArtifact\<rparr>)))"
  by (simp add: stepOutside_def)

lemma stepInArtifact_nonempty:
  "rest \<noteq> [] \<Longrightarrow>
   stepInArtifact isFile rest position =
     (if hd rest \<noteq> CHR ''<'' then Step [] [] \<lparr>cursor = position + 1, mode = InArtifact\<rparr>
      else if tagAt rest artifactCloseTag = Matched
      then Step [ArtifactClose] [] \<lparr>cursor = position + length artifactCloseTag, mode = Outside\<rparr>
      else if tagAt rest actionOpenTag = Matched then
        (case indexOf rest ''>'' of
           None \<Rightarrow> Wait []
         | Some k \<Rightarrow>
             let attributes = take (k - length actionOpenTag) (drop (length actionOpenTag) rest)
             in if isFile attributes
                then Step [ActionOpen attributes] []
                       \<lparr>cursor = position + k + 1, mode = InFileAction attributes\<rparr>
                else Step [] [] \<lparr>cursor = position + k + 1, mode = InOtherAction attributes\<rparr>)
      else if tagAt rest artifactCloseTag = Partial \<or> tagAt rest actionOpenTag = Partial
      then Wait []
      else Step [] [] \<lparr>cursor = position + 1, mode = InArtifact\<rparr>)"
  by (simp add: stepInArtifact_def)

lemma stepOutside_append:
  assumes "stepOutside rest position = Step events visible state'"
  shows "stepOutside (rest @ added) position = Step events visible state'"
proof -
  have nonempty: "rest \<noteq> []"
    using assms by (auto simp: stepOutside_def)
  then have longer: "rest @ added \<noteq> []" "hd (rest @ added) = hd rest"
    by simp_all
  note unfold = stepOutside_nonempty [OF nonempty] stepOutside_nonempty [OF longer(1)] longer(2)
  have "stepOutside (rest @ added) position = stepOutside rest position"
  proof (cases "hd rest = CHR ''<''")
    case False
    then show ?thesis by (simp add: unfold)
  next
    case True
    show ?thesis
    proof (cases "tagAt rest artifactOpenTag")
      case Partial
      then show ?thesis
        using assms True by (simp add: unfold)
    next
      case NoMatch
      then show ?thesis
        using True tagAt_NoMatch_append [OF NoMatch, of added] by (simp add: unfold)
    next
      case Matched
      then have starts: "startsWith rest artifactOpenTag"
        by (auto simp: tagAt_def split: if_splits)
      show ?thesis
      proof (cases "indexOf rest ''>''")
        case None
        then show ?thesis
          using assms True Matched by (simp add: unfold)
      next
        case (Some k)
        show ?thesis
          using True Matched Some tagAt_Matched_append [OF Matched, of added]
            indexOf_append [OF Some, of added]
          by (simp add: unfold step_attributes [OF starts Some, of added]
              del: take_append drop_append)
      qed
    qed
  qed
  with assms show ?thesis by simp
qed

lemma action_is_not_close:
  "startsWith rest actionOpenTag \<Longrightarrow> tagAt rest artifactCloseTag = NoMatch"
  by (auto simp: startsWith_iff tagAt_def actionOpenTag_def artifactCloseTag_def)

lemma stepInArtifact_append:
  assumes "stepInArtifact isFile rest position = Step events visible state'"
  shows "stepInArtifact isFile (rest @ added) position = Step events visible state'"
proof -
  have nonempty: "rest \<noteq> []"
    using assms by (auto simp: stepInArtifact_def)
  then have longer: "rest @ added \<noteq> []" "hd (rest @ added) = hd rest"
    by simp_all
  note unfold = stepInArtifact_nonempty [OF nonempty] stepInArtifact_nonempty [OF longer(1)] longer(2)
  have "stepInArtifact isFile (rest @ added) position = stepInArtifact isFile rest position"
  proof (cases "hd rest = CHR ''<''")
    case False
    then show ?thesis by (simp add: unfold)
  next
    case bracket: True
    show ?thesis
    proof (cases "tagAt rest artifactCloseTag = Matched")
      case True
      then show ?thesis
        using bracket tagAt_Matched_append [OF True, of added] by (simp add: unfold)
    next
      case notClose: False
      show ?thesis
      proof (cases "tagAt rest actionOpenTag = Matched")
        case True
        then have starts: "startsWith rest actionOpenTag"
          by (auto simp: tagAt_def split: if_splits)
        have close: "tagAt (rest @ added) artifactCloseTag \<noteq> Matched"
          using tagAt_NoMatch_append [OF action_is_not_close [OF starts], of added] by simp
        show ?thesis
        proof (cases "indexOf rest ''>''")
          case None
          then show ?thesis
            using assms bracket notClose True by (simp add: unfold)
        next
          case (Some k)
          show ?thesis
            using bracket notClose True Some close
              tagAt_Matched_append [OF True, of added] indexOf_append [OF Some, of added]
            by (simp add: unfold Let_def step_attributes [OF starts Some, of added]
                del: take_append drop_append)
        qed
      next
        case notOpen: False
        have settled: "tagAt rest artifactCloseTag = NoMatch" "tagAt rest actionOpenTag = NoMatch"
          using assms bracket notClose notOpen
          by (cases "tagAt rest artifactCloseTag"; cases "tagAt rest actionOpenTag";
              simp add: unfold)+
        show ?thesis
          using bracket settled
            tagAt_NoMatch_append [OF settled(1), of added] tagAt_NoMatch_append [OF settled(2), of added]
          by (simp add: unfold)
      qed
    qed
  qed
  with assms show ?thesis by simp
qed

lemma stepInAction_append:
  assumes "stepInAction isFile attributes rest position = Step events visible state'"
  shows "stepInAction isFile attributes (rest @ added) position = Step events visible state'"
proof (cases "indexOf rest actionCloseTag")
  case None
  then show ?thesis using assms by (simp add: stepInAction_def)
next
  case (Some k)
  have "k \<le> length rest"
    using indexOf_Some [OF Some] by simp
  then show ?thesis
    using assms Some indexOf_append [OF Some, of added] by (simp add: stepInAction_def)
qed

lemma step_inside:
  assumes "parseStep isFile input state = Step events visible state'"
  shows "cursor state < length input"
proof (rule ccontr)
  assume "\<not> cursor state < length input"
  then have "drop (cursor state) input = []"
    by simp
  then have "\<exists>waiting. parseStep isFile input state = Wait waiting"
    by (simp add: parseStep_def stepOutside_def stepInArtifact_def stepInAction_def
        actionCloseTag_def split: mode.splits)
  with assms show False by auto
qed

lemma parseStep_append:
  assumes "parseStep isFile input state = Step events visible state'"
  shows "parseStep isFile (input @ added) state = Step events visible state'"
proof -
  have "drop (cursor state) (input @ added) = drop (cursor state) input @ added"
    using step_inside [OF assms] by simp
  then show ?thesis
    using assms stepOutside_append stepInArtifact_append stepInAction_append
    by (auto simp: parseStep_def split: mode.splits)
qed

lemma wait_fires_no_open_or_close:
  "parseStep isFile input state = Wait events \<Longrightarrow> filter isOpenOrClose events = []"
  by (auto simp: parseStep_def stepOutside_def stepInArtifact_def stepInAction_def Let_def
      isOpenOrClose_def
      split: mode.splits list.splits scan.splits option.splits if_splits)

lemma parseLoop_append:
  assumes "parseLoop isFile input state = (events1, visible1, state1)"
    and "parseLoop isFile (input @ added) state1 = (events2, visible2, state2)"
  shows "\<exists>events. parseLoop isFile (input @ added) state = (events, visible1 @ visible2, state2) \<and>
           filter isOpenOrClose events = filter isOpenOrClose events1 @ filter isOpenOrClose events2"
  using assms
proof (induction isFile input state arbitrary: events1 visible1 rule: parseLoop.induct)
  case (1 isFile input state)
  show ?case
  proof (cases "parseStep isFile input state")
    case (Wait waiting)
    then have "events1 = waiting" "visible1 = []" "state1 = state"
      using "1.prems"(1) by (simp_all add: parseLoop.simps [of isFile input state])
    then show ?thesis
      using "1.prems"(2) wait_fires_no_open_or_close [OF Wait] by simp
  next
    case (Step fired shown state')
    obtain events' visible' final where
      rest: "parseLoop isFile input state' = (events', visible', final)"
      by (cases "parseLoop isFile input state'") auto
    then have first: "events1 = fired @ events'" "visible1 = shown @ visible'" "state1 = final"
      using "1.prems"(1) Step by (simp_all add: parseLoop.simps [of isFile input state])
    from rest first(3) have rest': "parseLoop isFile input state' = (events', visible', state1)"
      by simp
    from "1.IH" [OF Step rest' "1.prems"(2)] obtain events where
      longer: "parseLoop isFile (input @ added) state' = (events, visible' @ visible2, state2)" and
      same: "filter isOpenOrClose events = filter isOpenOrClose events' @ filter isOpenOrClose events2"
      by auto
    have "parseLoop isFile (input @ added) state =
          (fired @ events, shown @ visible' @ visible2, state2)"
      using parseStep_append [OF Step, of added] longer
      by (simp add: parseLoop.simps [of isFile "input @ added" state])
    then show ?thesis
      using same first by simp
  qed
qed

lemma growing_last: "growing (input # inputs) \<Longrightarrow> \<exists>added. last (input # inputs) = input @ added"
proof (induction inputs arbitrary: input)
  case Nil
  show ?case by simp
next
  case (Cons second inputs)
  then obtain added where "second = input @ added"
    by (auto simp: startsWith_iff)
  moreover obtain added' where "last (second # inputs) = second @ added'"
    using Cons by auto
  ultimately show ?case by simp
qed

lemma parse_state:
  "parse isFile messages messageId input = (events, visible, messages') \<Longrightarrow>
   \<exists>final. messages' = messages(messageId \<mapsto> final) \<and>
     parseLoop isFile input (case messages messageId of None \<Rightarrow> initialState | Some state \<Rightarrow> state) =
       (events, visible, final)"
  by (auto simp: parse_def Let_def split: prod.splits)

lemma parseRepeatedly_single:
  assumes "growing inputs" and "inputs \<noteq> []"
  shows "\<exists>events visible final.
           parse isFile messages messageId (last inputs) = (events, visible, final) \<and>
           filter isOpenOrClose (fst (parseRepeatedly isFile messages messageId inputs)) =
             filter isOpenOrClose events \<and>
           fst (snd (parseRepeatedly isFile messages messageId inputs)) = visible \<and>
           snd (snd (parseRepeatedly isFile messages messageId inputs)) = final"
  using assms
proof (induction inputs arbitrary: messages)
  case Nil
  then show ?case by simp
next
  case (Cons input inputs)
  obtain events1 visible1 messages1 where
    first: "parse isFile messages messageId input = (events1, visible1, messages1)"
    by (cases "parse isFile messages messageId input") auto
  then obtain state1 where
    stored: "messages1 = messages(messageId \<mapsto> state1)" and
    loop1: "parseLoop isFile input
              (case messages messageId of None \<Rightarrow> initialState | Some state \<Rightarrow> state) =
            (events1, visible1, state1)"
    using parse_state by blast
  show ?case
  proof (cases inputs)
    case Nil
    then show ?thesis
      using first by simp
  next
    case (Cons second others)
    then have "growing inputs" "inputs \<noteq> []"
      using Cons.prems by simp_all
    from Cons.IH [OF this, of messages1] obtain events2 visible2 final where
      second: "parse isFile messages1 messageId (last inputs) = (events2, visible2, final)" and
      calls: "filter isOpenOrClose (fst (parseRepeatedly isFile messages1 messageId inputs)) =
                filter isOpenOrClose events2"
        "fst (snd (parseRepeatedly isFile messages1 messageId inputs)) = visible2"
        "snd (snd (parseRepeatedly isFile messages1 messageId inputs)) = final"
      by blast
    from second obtain state2 where
      final: "final = messages1(messageId \<mapsto> state2)" and
      loop2: "parseLoop isFile (last inputs) state1 = (events2, visible2, state2)"
      using parse_state [OF second] by (auto simp: stored)
    obtain added where added: "last (input # inputs) = input @ added"
      using growing_last [OF Cons.prems(1)] by blast
    then have last: "last inputs = input @ added"
      using \<open>inputs \<noteq> []\<close> by simp
    from parseLoop_append [OF loop1 loop2 [unfolded last]] obtain events where
      whole: "parseLoop isFile (input @ added)
                (case messages messageId of None \<Rightarrow> initialState | Some state \<Rightarrow> state) =
              (events, visible1 @ visible2, state2)" and
      same: "filter isOpenOrClose events = filter isOpenOrClose events1 @ filter isOpenOrClose events2"
      by blast
    have single: "parse isFile messages messageId (last (input # inputs)) =
          (events, visible1 @ visible2, messages(messageId \<mapsto> state2))"
      using whole unfolding added by (simp add: parse_def)
    have final': "final = messages(messageId \<mapsto> state2)"
      by (simp add: final stored)
    have together: "parseRepeatedly isFile messages messageId (input # inputs) =
          (events1 @ fst (parseRepeatedly isFile messages1 messageId inputs),
           visible1 @ visible2, final)"
      using first calls(2,3) by (simp add: split_beta)
    show ?thesis
    proof (intro exI conjI)
      show "parse isFile messages messageId (last (input # inputs)) =
            (events, visible1 @ visible2, final)"
        by (simp only: single final')
      show "filter isOpenOrClose (fst (parseRepeatedly isFile messages messageId (input # inputs))) =
            filter isOpenOrClose events"
        by (simp only: together fst_conv filter_append same calls(1))
      show "fst (snd (parseRepeatedly isFile messages messageId (input # inputs))) = visible1 @ visible2"
        by (simp only: together fst_conv snd_conv)
      show "snd (snd (parseRepeatedly isFile messages messageId (input # inputs))) = final"
        by (simp only: together snd_conv)
    qed
  qed
qed


lemma growing_tail: "growing (input # inputs) \<Longrightarrow> growing inputs"
  by (cases inputs) simp_all

lemma growing_accumulate: "growing (seen # accumulate seen cs)"
proof (induction cs arbitrary: seen)
  case Nil
  show ?case by simp
next
  case (Cons c cs)
  have "startsWith (seen @ [c]) seen"
    by (simp add: startsWith_iff)
  then show ?case
    using Cons [of "seen @ [c]"] by simp
qed

lemma last_accumulate: "last (seen # accumulate seen cs) = seen @ cs"
  by (induction cs arbitrary: seen) simp_all

lemma parseStep_empty: "\<exists>events. parseStep isFile [] state = Wait events"
  by (cases "mode state")
    (simp_all add: parseStep_def stepOutside_def stepInArtifact_def stepInAction_def
      actionCloseTag_def)

lemma parse_empty:
  "filter isOpenOrClose (fst (parse isFile messages messageId [])) = []"
proof -
  let ?state = "case messages messageId of None \<Rightarrow> initialState | Some state \<Rightarrow> state"
  obtain events where wait: "parseStep isFile [] ?state = Wait events"
    using parseStep_empty by blast
  then have "parseLoop isFile [] ?state = (events, [], ?state)"
    by (simp add: parseLoop.simps [of isFile "[]"])
  then show ?thesis
    using wait_fires_no_open_or_close [OF wait]
    by (simp add: parse_def)
qed

lemma parse_other:
  "other \<noteq> messageId \<Longrightarrow> snd (snd (parse isFile p other input)) messageId = p messageId"
  by (simp add: parse_def Let_def split: prod.splits)

lemma parse_agree:
  assumes "p messageId = q messageId"
  shows "fst (parse isFile p messageId input) = fst (parse isFile q messageId input)"
    and "snd (snd (parse isFile p messageId input)) messageId =
         snd (snd (parse isFile q messageId input)) messageId"
  using assms by (simp_all add: parse_def Let_def split: prod.splits)

lemma parseRepeatedly_agree:
  assumes "p messageId = q messageId"
  shows "fst (parseRepeatedly isFile p messageId inputs) =
           fst (parseRepeatedly isFile q messageId inputs) \<and>
         snd (snd (parseRepeatedly isFile p messageId inputs)) messageId =
           snd (snd (parseRepeatedly isFile q messageId inputs)) messageId"
  using assms
proof (induction inputs arbitrary: p q)
  case Nil
  then show ?case by simp
next
  case (Cons input inputs)
  let ?p = "snd (snd (parse isFile p messageId input))"
  let ?q = "snd (snd (parse isFile q messageId input))"
  have first: "fst (parse isFile p messageId input) = fst (parse isFile q messageId input)"
    by (rule parse_agree(1)) (rule Cons.prems)
  have "?p messageId = ?q messageId"
    by (rule parse_agree(2)) (rule Cons.prems)
  then have "fst (parseRepeatedly isFile ?p messageId inputs) =
           fst (parseRepeatedly isFile ?q messageId inputs) \<and>
         snd (snd (parseRepeatedly isFile ?p messageId inputs)) messageId =
           snd (snd (parseRepeatedly isFile ?q messageId inputs)) messageId"
    by (rule Cons.IH)
  with first show ?case
    by (simp add: split_beta)
qed

lemma parseRepeatedly_append:
  "fst (parseRepeatedly isFile p messageId (xs @ ys)) =
     fst (parseRepeatedly isFile p messageId xs) @
     fst (parseRepeatedly isFile (snd (snd (parseRepeatedly isFile p messageId xs))) messageId ys) \<and>
   snd (snd (parseRepeatedly isFile p messageId (xs @ ys))) =
     snd (snd (parseRepeatedly isFile (snd (snd (parseRepeatedly isFile p messageId xs))) messageId ys))"
  by (induction xs arbitrary: p) (simp_all add: split_beta)

lemma eventsOf_append: "eventsOf messageId (xs @ ys) = eventsOf messageId xs @ eventsOf messageId ys"
  by (simp add: eventsOf_def)

lemma eventsOf_same: "eventsOf messageId (map (Pair messageId) events) = events"
  by (induction events) (simp_all add: eventsOf_def)

lemma eventsOf_other: "other \<noteq> messageId \<Longrightarrow> eventsOf messageId (map (Pair other) events) = []"
  by (induction events) (simp_all add: eventsOf_def)

lemma parseMessagesLoop_events:
  assumes "p messageId = q messageId"
  shows "eventsOf messageId (fst (parseMessagesLoop isFile reset index messages p parsed)) =
           fst (parseRepeatedly isFile q messageId (textsIn messageId messages)) \<and>
         fst (snd (parseMessagesLoop isFile reset index messages p parsed)) messageId =
           snd (snd (parseRepeatedly isFile q messageId (textsIn messageId messages))) messageId"
  using assms
proof (induction messages arbitrary: index p q parsed)
  case Nil
  then show ?case
    by (simp add: textsIn_def eventsOf_def)
next
  case (Cons message messages)
  show ?case
  proof (cases "messageRole message = ''assistant'' \<or> messageRole message = ''user''")
    case False
    then have texts: "textsIn messageId (message # messages) = textsIn messageId messages"
      by (simp add: textsIn_def)
    have "eventsOf messageId (fst (parseMessagesLoop isFile reset (Suc index) messages p parsed)) =
            fst (parseRepeatedly isFile q messageId (textsIn messageId messages)) \<and>
          fst (snd (parseMessagesLoop isFile reset (Suc index) messages p parsed)) messageId =
            snd (snd (parseRepeatedly isFile q messageId (textsIn messageId messages))) messageId"
      by (rule Cons.IH) (rule Cons.prems)
    then show ?thesis
      using False by (simp add: texts)
  next
    case True
    let ?input = "extractTextContent message"
    let ?p = "snd (snd (parse isFile p (messageIdent message) ?input))"
    let ?parsed = "parsed(index \<mapsto>
        (if \<not> reset
         then (case parsed index of None \<Rightarrow> [] | Some shown \<Rightarrow> shown) @
              fst (snd (parse isFile p (messageIdent message) ?input))
         else fst (snd (parse isFile p (messageIdent message) ?input))))"
    have unfold: "parseMessagesLoop isFile reset index (message # messages) p parsed =
        (map (Pair (messageIdent message)) (fst (parse isFile p (messageIdent message) ?input)) @
           fst (parseMessagesLoop isFile reset (Suc index) messages ?p ?parsed),
         snd (parseMessagesLoop isFile reset (Suc index) messages ?p ?parsed))"
      using True by (simp add: split_beta)
    show ?thesis
    proof (cases "messageIdent message = messageId")
      case False
      then have texts: "textsIn messageId (message # messages) = textsIn messageId messages"
        by (simp add: textsIn_def)
      have "?p messageId = q messageId"
        using parse_other [OF False, of isFile p ?input] Cons.prems by simp
      then have "eventsOf messageId (fst (parseMessagesLoop isFile reset (Suc index) messages ?p ?parsed)) =
            fst (parseRepeatedly isFile q messageId (textsIn messageId messages)) \<and>
          fst (snd (parseMessagesLoop isFile reset (Suc index) messages ?p ?parsed)) messageId =
            snd (snd (parseRepeatedly isFile q messageId (textsIn messageId messages))) messageId"
        by (rule Cons.IH)
      then show ?thesis
        unfolding unfold texts using False by (simp add: eventsOf_append eventsOf_other)
    next
      case same: True
      let ?q = "snd (snd (parse isFile q messageId ?input))"
      have texts: "textsIn messageId (message # messages) = ?input # textsIn messageId messages"
        using True same by (simp add: textsIn_def)
      have first: "fst (parse isFile p messageId ?input) = fst (parse isFile q messageId ?input)"
        by (rule parse_agree(1)) (rule Cons.prems)
      have "snd (snd (parse isFile p messageId ?input)) messageId = ?q messageId"
        by (rule parse_agree(2)) (rule Cons.prems)
      then have "?p messageId = ?q messageId"
        by (simp add: same)
      then have "eventsOf messageId (fst (parseMessagesLoop isFile reset (Suc index) messages ?p ?parsed)) =
            fst (parseRepeatedly isFile ?q messageId (textsIn messageId messages)) \<and>
          fst (snd (parseMessagesLoop isFile reset (Suc index) messages ?p ?parsed)) messageId =
            snd (snd (parseRepeatedly isFile ?q messageId (textsIn messageId messages))) messageId"
        by (rule Cons.IH)
      then show ?thesis
        unfolding unfold texts using first
        by (simp add: same split_beta eventsOf_append eventsOf_same)
    qed
  qed
qed

lemma parseMessagesCalls_events:
  assumes "dev \<longrightarrow> list_all snd calls" and "p messageId = q messageId"
  shows "eventsOf messageId (fst (parseMessagesCalls isFile dev calls (p, parsed))) =
         fst (parseRepeatedly isFile q messageId (textsOf messageId calls))"
  using assms
proof (induction calls arbitrary: p q parsed)
  case Nil
  then show ?case
    by (simp add: textsOf_def eventsOf_def)
next
  case (Cons call calls)
  obtain messages isLoading where call: "call = (messages, isLoading)"
    by (cases call) auto
  have quiet: "\<not> (dev \<and> \<not> isLoading)" and later: "dev \<longrightarrow> list_all snd calls"
    using Cons.prems(1) by (simp_all add: call)
  let ?loop = "parseMessagesLoop isFile False 0 messages p parsed"
  let ?first = "parseRepeatedly isFile q messageId (textsIn messageId messages)"
  have run: "parseMessages isFile dev messages isLoading (p, parsed) = ?loop"
    using quiet by (auto simp: parseMessages_def Let_def)
  have "eventsOf messageId (fst ?loop) = fst ?first \<and>
        fst (snd ?loop) messageId = snd (snd ?first) messageId"
    by (rule parseMessagesLoop_events) (rule Cons.prems(2))
  then have loop: "eventsOf messageId (fst ?loop) = fst ?first"
    "fst (snd ?loop) messageId = snd (snd ?first) messageId"
    by simp_all
  have rest: "eventsOf messageId
          (fst (parseMessagesCalls isFile dev calls (fst (snd ?loop), snd (snd ?loop)))) =
        fst (parseRepeatedly isFile (snd (snd ?first)) messageId (textsOf messageId calls))"
    using later loop(2) by (rule Cons.IH)
  have texts: "textsOf messageId (call # calls) =
      textsIn messageId messages @ textsOf messageId calls"
    by (simp add: textsOf_def call)
  have "fst (parseRepeatedly isFile q messageId (textsOf messageId (call # calls))) =
      fst ?first @ fst (parseRepeatedly isFile (snd (snd ?first)) messageId (textsOf messageId calls))"
    unfolding texts using parseRepeatedly_append [of isFile q messageId "textsIn messageId messages"]
    by blast
  then show ?case
    using loop(1) rest by (simp add: call run split_beta eventsOf_append)
qed

lemma textsOf_oneMessage:
  "textsOf messageId (map (\<lambda>input. (oneMessage messageId input, True)) inputs) = inputs"
  by (induction inputs) (simp_all add: textsOf_def textsIn_def oneMessage_def extractTextContent_def)

text \<open>
  Claim C5, as amended. Let the hook be called again and again, and let no call reset the
  parser: the build is not a development build, or \<^verbatim>\<open>isLoading\<close> is true at every call.
  For every message id, if each text that the calls hold for this id begins with the one
  before it (the same text, or the text grown), then the open and close events of artifacts
  and actions fired for this id by all the calls together are those that one call of the
  parser with the last text fires, in the same order and as many times: none is fired
  twice. In particular a text delivered one character at a time fires the same open and
  close events as the text delivered whole. The stream events of a file action, which carry
  its content so far at each call, are not part of the statement, and neither is a run with
  a reset.
\<close>

theorem parser_replay_fires_open_and_close_once:
  "((dev \<longrightarrow> list_all snd calls) \<and> growing (textsOf messageId calls) \<and> textsOf messageId calls \<noteq> [] \<longrightarrow>
      filter isOpenOrClose
        (eventsOf messageId (fst (parseMessagesCalls isFile dev calls (messageParser, prevParsed)))) =
      filter isOpenOrClose
        (fst (parse isFile messageParser messageId (last (textsOf messageId calls))))) \<and>
   filter isOpenOrClose
     (eventsOf messageId
        (fst (parseMessagesCalls isFile dev
                (map (\<lambda>input. (oneMessage messageId input, True)) (singleChars input))
                (messageParser, prevParsed)))) =
   filter isOpenOrClose
     (eventsOf messageId
        (fst (parseMessages isFile dev (oneMessage messageId input) True (messageParser, prevParsed))))"
proof (intro conjI impI)
  assume calm: "(dev \<longrightarrow> list_all snd calls) \<and> growing (textsOf messageId calls) \<and>
    textsOf messageId calls \<noteq> []"
  then have quiet: "dev \<longrightarrow> list_all snd calls"
    by simp
  have "eventsOf messageId (fst (parseMessagesCalls isFile dev calls (messageParser, prevParsed))) =
      fst (parseRepeatedly isFile messageParser messageId (textsOf messageId calls))"
    using quiet by (rule parseMessagesCalls_events) (rule refl)
  then show "filter isOpenOrClose
        (eventsOf messageId (fst (parseMessagesCalls isFile dev calls (messageParser, prevParsed)))) =
      filter isOpenOrClose
        (fst (parse isFile messageParser messageId (last (textsOf messageId calls))))"
    using parseRepeatedly_single [of "textsOf messageId calls" isFile messageParser messageId] calm
    by auto
next
  let ?calls = "map (\<lambda>input. (oneMessage messageId input, True)) (singleChars input)"
  have quiet: "dev \<longrightarrow> list_all snd ?calls"
    by (simp add: list_all_iff)
  have "eventsOf messageId (fst (parseMessagesCalls isFile dev ?calls (messageParser, prevParsed))) =
      fst (parseRepeatedly isFile messageParser messageId (textsOf messageId ?calls))"
    using quiet by (rule parseMessagesCalls_events) (rule refl)
  then have chunks: "eventsOf messageId (fst (parseMessagesCalls isFile dev ?calls (messageParser, prevParsed))) =
      fst (parseRepeatedly isFile messageParser messageId (singleChars input))"
    by (simp only: textsOf_oneMessage)
  have whole: "eventsOf messageId
      (fst (parseMessages isFile dev (oneMessage messageId input) True (messageParser, prevParsed))) =
      fst (parse isFile messageParser messageId input)"
    by (simp add: parseMessages_def oneMessage_def extractTextContent_def split_beta eventsOf_same)
  have "filter isOpenOrClose (fst (parseRepeatedly isFile messageParser messageId (singleChars input))) =
        filter isOpenOrClose (fst (parse isFile messageParser messageId input))"
  proof (cases input)
    case Nil
    then show ?thesis
      by (simp add: singleChars_def parse_empty)
  next
    case (Cons c cs)
    have "growing (singleChars input)"
      using growing_tail [OF growing_accumulate [of "[]" input]] by (simp add: singleChars_def)
    moreover have "singleChars input \<noteq> []"
      by (simp add: singleChars_def Cons)
    moreover have "last (singleChars input) = input"
      using last_accumulate [of "[]" input] by (simp add: singleChars_def Cons)
    ultimately show ?thesis
      using parseRepeatedly_single [of "singleChars input" isFile messageParser messageId] by auto
  qed
  then show "filter isOpenOrClose
     (eventsOf messageId (fst (parseMessagesCalls isFile dev ?calls (messageParser, prevParsed)))) =
   filter isOpenOrClose
     (eventsOf messageId
        (fst (parseMessages isFile dev (oneMessage messageId input) True (messageParser, prevParsed))))"
    by (simp only: chunks whole)
qed

theorem parser_replay_fires_open_and_close_once_witness:
  "growing (textsOf ''m1''
     [([\<lparr>messageRole = ''user'', messageIdent = ''u1'', messageContent = Plain ''a page, please''\<rparr>,
        \<lparr>messageRole = ''assistant'', messageIdent = ''m1'', messageContent = Plain ''Hi<arti''\<rparr>], True),
      ([\<lparr>messageRole = ''user'', messageIdent = ''u1'', messageContent = Plain ''a page, please''\<rparr>,
        \<lparr>messageRole = ''assistant'', messageIdent = ''m1'',
          messageContent = Plain ''Hi<artifact id=1><action type=file>a''\<rparr>], True),
      ([\<lparr>messageRole = ''user'', messageIdent = ''u1'', messageContent = Plain ''a page, please''\<rparr>,
        \<lparr>messageRole = ''assistant'', messageIdent = ''m1'',
          messageContent = Plain ''Hi<artifact id=1><action type=file>ab</action><action type=shell>ls</action></artifact>!''\<rparr>],
       True)]) \<and>
   filter isOpenOrClose (eventsOf ''m1'' (fst (parseMessagesCalls
     (\<lambda>attributes. includesStr attributes ''file'') True
     [([\<lparr>messageRole = ''user'', messageIdent = ''u1'', messageContent = Plain ''a page, please''\<rparr>,
        \<lparr>messageRole = ''assistant'', messageIdent = ''m1'', messageContent = Plain ''Hi<arti''\<rparr>], True),
      ([\<lparr>messageRole = ''user'', messageIdent = ''u1'', messageContent = Plain ''a page, please''\<rparr>,
        \<lparr>messageRole = ''assistant'', messageIdent = ''m1'',
          messageContent = Plain ''Hi<artifact id=1><action type=file>a''\<rparr>], True),
      ([\<lparr>messageRole = ''user'', messageIdent = ''u1'', messageContent = Plain ''a page, please''\<rparr>,
        \<lparr>messageRole = ''assistant'', messageIdent = ''m1'',
          messageContent = Plain ''Hi<artifact id=1><action type=file>ab</action><action type=shell>ls</action></artifact>!''\<rparr>],
       True)]
     (Map.empty, Map.empty)))) =
     [ArtifactOpen '' id=1'', ActionOpen '' type=file'', ActionClose '' type=file'' ''ab'',
      ActionOpen '' type=shell'', ActionClose '' type=shell'' ''ls'', ArtifactClose]"
proof -
  let ?user = "\<lparr>messageRole = ''user'', messageIdent = ''u1'', messageContent = Plain ''a page, please''\<rparr>"
  let ?whole = "''Hi<artifact id=1><action type=file>ab</action><action type=shell>ls</action></artifact>!''"
  let ?calls =
    "[([?user, \<lparr>messageRole = ''assistant'', messageIdent = ''m1'', messageContent = Plain ''Hi<arti''\<rparr>], True),
      ([?user, \<lparr>messageRole = ''assistant'', messageIdent = ''m1'',
          messageContent = Plain ''Hi<artifact id=1><action type=file>a''\<rparr>], True),
      ([?user, \<lparr>messageRole = ''assistant'', messageIdent = ''m1'', messageContent = Plain ?whole\<rparr>], True)]"
  let ?isFile = "\<lambda>attributes. includesStr attributes ''file''"
  have texts: "textsOf ''m1'' ?calls =
      [''Hi<arti'', ''Hi<artifact id=1><action type=file>a'', ?whole]"
    by (simp add: textsOf_def textsIn_def extractTextContent_def)
  have grows: "growing (textsOf ''m1'' ?calls)"
    unfolding texts by simp
  have whole: "fst (parse ?isFile Map.empty ''m1'' ?whole) =
      [ArtifactOpen '' id=1'', ActionOpen '' type=file'', ActionClose '' type=file'' ''ab'',
       ActionOpen '' type=shell'', ActionClose '' type=shell'' ''ls'', ArtifactClose]"
    by (simp add: parse_def initialState_def parseLoop.simps parseStep_def stepOutside_def
        stepInArtifact_def stepInAction_def tagAt_def artifactOpenTag_def artifactCloseTag_def
        actionOpenTag_def actionCloseTag_def Let_def)
  have last: "last (textsOf ''m1'' ?calls) = ?whole"
    unfolding texts by simp
  have "filter isOpenOrClose
          (eventsOf ''m1'' (fst (parseMessagesCalls ?isFile True ?calls (Map.empty, Map.empty)))) =
        filter isOpenOrClose (fst (parse ?isFile Map.empty ''m1'' (last (textsOf ''m1'' ?calls))))"
    using parser_replay_fires_open_and_close_once
      [of True ?calls "''m1''" ?isFile Map.empty Map.empty] grows
    by (simp add: texts del: parseMessagesCalls.simps)
  then have fired: "filter isOpenOrClose
          (eventsOf ''m1'' (fst (parseMessagesCalls ?isFile True ?calls (Map.empty, Map.empty)))) =
        filter isOpenOrClose (fst (parse ?isFile Map.empty ''m1'' ?whole))"
    by (simp only: last)
  have "filter isOpenOrClose (fst (parse ?isFile Map.empty ''m1'' ?whole)) =
      [ArtifactOpen '' id=1'', ActionOpen '' type=file'', ActionClose '' type=file'' ''ab'',
       ActionOpen '' type=shell'', ActionClose '' type=shell'' ''ls'', ArtifactClose]"
    unfolding whole by (simp add: isOpenOrClose_def)
  with fired have "filter isOpenOrClose
          (eventsOf ''m1'' (fst (parseMessagesCalls ?isFile True ?calls (Map.empty, Map.empty)))) =
      [ArtifactOpen '' id=1'', ActionOpen '' type=file'', ActionClose '' type=file'' ''ab'',
       ActionOpen '' type=shell'', ActionClose '' type=shell'' ''ls'', ArtifactClose]"
    by (rule trans)
  with grows show ?thesis
    by (rule conjI)
qed

text \<open>
  The claim as stated holds for every repeated call and for every event. Two runs against
  it. In a development build, two calls with \<^verbatim>\<open>isLoading\<close> false and the same message: each
  call resets the parser, and the open event of the artifact is fired twice. In a
  production build, a text that ends inside a file action: delivered one character at a
  time it fires three stream events, delivered whole it fires one, so the events are not
  the same.
\<close>

theorem parser_reset_fires_events_again_counterexample:
  "fst (parseMessagesCalls (\<lambda>attributes. True) True
          [(oneMessage ''m1'' ''<artifact id=1>'', False),
           (oneMessage ''m1'' ''<artifact id=1>'', False)]
          (Map.empty, Map.empty)) =
     [(''m1'', ArtifactOpen '' id=1''), (''m1'', ArtifactOpen '' id=1'')] \<and>
   fst (parseMessagesCalls (\<lambda>attributes. True) False
          (map (\<lambda>input. (oneMessage ''m1'' input, True)) (singleChars ''<artifact><action>ab''))
          (Map.empty, Map.empty)) =
     [(''m1'', ArtifactOpen []), (''m1'', ActionOpen []), (''m1'', ActionStream [] []),
      (''m1'', ActionStream [] ''a''), (''m1'', ActionStream [] ''ab'')] \<and>
   fst (parseMessages (\<lambda>attributes. True) False (oneMessage ''m1'' ''<artifact><action>ab'') True
          (Map.empty, Map.empty)) =
     [(''m1'', ArtifactOpen []), (''m1'', ActionOpen []), (''m1'', ActionStream [] ''ab'')]"
  by (simp add: singleChars_def oneMessage_def parseMessages_def resetParser_def
      extractTextContent_def parse_def initialState_def parseLoop.simps parseStep_def
      stepOutside_def stepInArtifact_def stepInAction_def tagAt_def artifactOpenTag_def
      artifactCloseTag_def actionOpenTag_def actionCloseTag_def Let_def)

end
